theory Spec2Isabelle
  imports
    Main
    "HOL-Library.Word"
    "HOL-Library.Multiset"
    "HOL-Library.List_Lexorder"
begin

section \<open>JavaScript strings\<close>

text \<open>
  A JavaScript string is a sequence of 16-bit code units. Literals of the source are written
  \<open>js ''...''\<close>; all of them are ASCII, so every character is one code unit.
\<close>

type_synonym jsstring = "16 word list"

definition js :: "string \<Rightarrow> jsstring" where
  "js s = map (\<lambda>c. of_char c) s"

definition colon :: "16 word" where
  "colon = 58"

definition space :: "16 word" where
  "space = 32"

definition dquote :: "16 word" where
  "dquote = 34"

definition squote :: "16 word" where
  "squote = 39"

definition backslash :: "16 word" where
  "backslash = 92"

text \<open>
  The class \<open>\s\<close> of a regular expression, which is also what \<open>String.prototype.trim\<close>
  removes: the white space and line terminator code points of ECMAScript.
\<close>

definition isSpace :: "16 word \<Rightarrow> bool" where
  "isSpace c \<longleftrightarrow>
     c \<in> set [9, 10, 11, 12, 13, 32, 160, 5760, 8232, 8233, 8239, 8287, 12288, 65279]
     \<or> (8192 \<le> c \<and> c \<le> 8202)"

text \<open>The code units that \<open>.\<close> does not match: the line terminators.\<close>

definition isLineTerminator :: "16 word \<Rightarrow> bool" where
  "isLineTerminator c \<longleftrightarrow> c \<in> set [10, 13, 8232, 8233]"

text \<open>The class \<open>[a-z-]\<close>.\<close>

definition isLowerOrDash :: "16 word \<Rightarrow> bool" where
  "isLowerOrDash c \<longleftrightarrow> (97 \<le> c \<and> c \<le> 122) \<or> c = 45"

text \<open>\<open>s.trim()\<close>\<close>

definition trim :: "jsstring \<Rightarrow> jsstring" where
  "trim s = rev (dropWhile isSpace (rev (dropWhile isSpace s)))"

text \<open>
  \<open>s.slice(start, end)\<close> and \<open>s.slice(start)\<close>: a negative position counts from the end,
  and both positions are clamped to the string.
\<close>

definition clampIndex :: "nat \<Rightarrow> int \<Rightarrow> nat" where
  "clampIndex len i = (if i < 0 then nat (max (int len + i) 0) else min (nat i) len)"

definition slice :: "'a list \<Rightarrow> int \<Rightarrow> int \<Rightarrow> 'a list" where
  "slice s start end =
     (let from = clampIndex (length s) start; to = clampIndex (length s) end
      in take (to - from) (drop from s))"

definition sliceFrom :: "'a list \<Rightarrow> int \<Rightarrow> 'a list" where
  "sliceFrom s start = drop (clampIndex (length s) start) s"

text \<open>\<open>s.lastIndexOf(c)\<close> and \<open>xs.indexOf(x)\<close>: the position, or \<open>-1\<close>.\<close>

fun lastIndexOf :: "'a list \<Rightarrow> 'a \<Rightarrow> int" where
  "lastIndexOf [] c = -1"
| "lastIndexOf (x # xs) c =
     (let r = lastIndexOf xs c
      in if r \<noteq> -1 then r + 1 else if x = c then 0 else -1)"

fun indexOf :: "'a list \<Rightarrow> 'a \<Rightarrow> int" where
  "indexOf [] x = -1"
| "indexOf (y # ys) x =
     (if y = x then 0 else (let r = indexOf ys x in if r = -1 then -1 else r + 1))"

text \<open>
  \<open>s.split(/\s+/)\<close>: the fragments between the maximal runs of white space, the empty
  fragments before a leading run and after a trailing run included. The first argument
  collects the current fragment, reversed.
\<close>

function splitSpaces :: "jsstring \<Rightarrow> jsstring \<Rightarrow> jsstring list" where
  "splitSpaces acc [] = [rev acc]"
| "splitSpaces acc (c # cs) =
     (if isSpace c then rev acc # splitSpaces [] (dropWhile isSpace cs)
      else splitSpaces (c # acc) cs)"
  by pat_completeness auto
termination
  by (relation "measure (\<lambda>(acc, s). length s)")
     (auto simp: le_imp_less_Suc length_dropWhile_le)

text \<open>\<open>s.split(":")\<close>: the fragments between the occurrences of one code unit.\<close>

fun splitAt :: "16 word \<Rightarrow> jsstring \<Rightarrow> jsstring \<Rightarrow> jsstring list" where
  "splitAt sep acc [] = [rev acc]"
| "splitAt sep acc (c # cs) =
     (if c = sep then rev acc # splitAt sep [] cs else splitAt sep (c # acc) cs)"

text \<open>\<open>xs.join(sep)\<close>\<close>

fun join :: "jsstring \<Rightarrow> jsstring list \<Rightarrow> jsstring" where
  "join sep [] = []"
| "join sep [x] = x"
| "join sep (x # y # ys) = x @ sep @ join sep (y # ys)"

section \<open>The class parser\<close>

record ParsedClass =
  full :: jsstring
  modifier :: "jsstring option"
  base :: jsstring

definition parseClass :: "jsstring \<Rightarrow> ParsedClass" where
  "parseClass className =
     (if className = [] then \<lparr>full = [], modifier = None, base = []\<rparr>
      else
        (let lastColonIndex = lastIndexOf className colon
         in if lastColonIndex = -1
            then \<lparr>full = className, modifier = None, base = className\<rparr>
            else \<lparr>full = className,
                  modifier = Some (slice className 0 (lastColonIndex + 1)),
                  base = sliceFrom className (lastColonIndex + 1)\<rparr>))"

definition parseClasses :: "jsstring \<Rightarrow> ParsedClass list" where
  "parseClasses classString =
     (if classString = [] \<or> trim classString = [] then []
      else
        (let classes = filter (\<lambda>f. f \<noteq> []) (splitSpaces [] (trim classString))
         in map parseClass classes))"

definition extractModifier :: "jsstring \<Rightarrow> jsstring option" where
  "extractModifier className = modifier (parseClass className)"

section \<open>The class grouper\<close>

text \<open>
  A JavaScript \<open>Map\<close> keeps its keys in insertion order, and the grouper depends on that
  order. It is an association list with distinct keys: \<open>mapSet\<close> overwrites the value of a
  key that is present and appends a key that is absent. An array held in a map is mutated
  by \<open>push\<close>; the model stores the extended array back.
\<close>

type_synonym ('k, 'v) jsmap = "('k \<times> 'v) list"

definition mapHas :: "('k, 'v) jsmap \<Rightarrow> 'k \<Rightarrow> bool" where
  "mapHas m k \<longleftrightarrow> map_of m k \<noteq> None"

definition mapGet :: "('k, 'v) jsmap \<Rightarrow> 'k \<Rightarrow> 'v option" where
  "mapGet m k = map_of m k"

definition mapSet :: "('k, 'v) jsmap \<Rightarrow> 'k \<Rightarrow> 'v \<Rightarrow> ('k, 'v) jsmap" where
  "mapSet m k v =
     (if mapHas m k then map (\<lambda>(k', v'). if k' = k then (k', v) else (k', v')) m
      else m @ [(k, v)])"

text \<open>
  One round of the loop body shared by the grouping functions: create the entry of the key
  if it is missing, then push onto its array.
\<close>

definition pushInto :: "('k, 'v list) jsmap \<Rightarrow> 'k \<Rightarrow> 'v \<Rightarrow> ('k, 'v list) jsmap" where
  "pushInto groups k x =
     (let groups1 = (if \<not> mapHas groups k then mapSet groups k [] else groups)
      in case mapGet groups1 k of
           Some grp \<Rightarrow> mapSet groups1 k (grp @ [x])
         | None \<Rightarrow> groups1)"

record ModifierGroup =
  modifier :: "jsstring option"
  classes :: "jsstring list"

definition groupClassesByModifier :: "jsstring list \<Rightarrow> (jsstring option, jsstring list) jsmap"
  where
  "groupClassesByModifier cls =
     foldl (\<lambda>groups className.
              pushInto groups (ParsedClass.modifier (parseClass className)) className)
       [] cls"

definition createModifierGroups :: "ParsedClass list \<Rightarrow> ModifierGroup list" where
  "createModifierGroups parsedClasses =
     map (\<lambda>(m, cs). \<lparr>modifier = m, classes = cs\<rparr>)
       (foldl (\<lambda>groups parsed. pushInto groups (ParsedClass.modifier parsed) (full parsed))
          [] parsedClasses)"

definition groupClassString :: "jsstring \<Rightarrow> ModifierGroup list" where
  "groupClassString classString = createModifierGroups (parseClasses classString)"

definition hasMultipleModifierGroups :: "jsstring \<Rightarrow> bool" where
  "hasMultipleModifierGroups classString \<longleftrightarrow> length (groupClassString classString) > 1"

definition mixesBaseAndModifiers :: "jsstring \<Rightarrow> bool" where
  "mixesBaseAndModifiers classString =
     (let groups = groupClassString classString;
          hasBase = list_ex (\<lambda>g. ModifierGroup.modifier g = None) groups;
          hasModifiers = list_ex (\<lambda>g. ModifierGroup.modifier g \<noteq> None) groups
      in hasBase \<and> hasModifiers)"

text \<open>
  The first loop of \<open>hasSplitModifiers\<close> and of \<open>getSplitModifier\<close>, which is the same in
  both: for every modifier key, null included, the set of the indices of the strings in
  whose grouping the key occurs. A \<open>Set\<close> of numbers is a list without repetitions.
\<close>

definition modifierToSources :: "jsstring list \<Rightarrow> (jsstring option, nat list) jsmap" where
  "modifierToSources classStrings =
     foldl (\<lambda>m (i, classString).
              foldl (\<lambda>m gr.
                       (let k = ModifierGroup.modifier gr;
                            m1 = (if \<not> mapHas m k then mapSet m k [] else m)
                        in case mapGet m1 k of
                             Some sources \<Rightarrow> mapSet m1 k (List.insert i sources)
                           | None \<Rightarrow> m1))
                m (groupClassString classString))
       [] (enumerate 0 classStrings)"

definition hasSplitModifiers :: "jsstring list \<Rightarrow> bool" where
  "hasSplitModifiers classStrings \<longleftrightarrow>
     list_ex (\<lambda>(k, sources). length sources > 1) (modifierToSources classStrings)"

definition getSplitModifier :: "jsstring list \<Rightarrow> jsstring option" where
  "getSplitModifier classStrings =
     (case find (\<lambda>(k, sources). length sources > 1 \<and> k \<noteq> None)
             (modifierToSources classStrings) of
        Some (k, sources) \<Rightarrow> k
      | None \<Rightarrow> None)"

definition getFirstTwoModifiers :: "jsstring \<Rightarrow> (jsstring \<times> jsstring) option" where
  "getFirstTwoModifiers classString =
     (let groups = groupClassString classString;
          modifiers = take 2 (List.map_filter ModifierGroup.modifier groups)
      in case modifiers of
           m1 # m2 # _ \<Rightarrow> Some (m1, m2)
         | _ \<Rightarrow> None)"

definition getFirstModifier :: "jsstring \<Rightarrow> jsstring option" where
  "getFirstModifier classString =
     (case find (\<lambda>g. ModifierGroup.modifier g \<noteq> None) (groupClassString classString) of
        Some g \<Rightarrow> ModifierGroup.modifier g
      | None \<Rightarrow> None)"

section \<open>The rule on a standard function call\<close>

text \<open>
  An argument of the call, as far as the rule looks at it: the kind of the node, the value
  of a literal when it is a string, the number of expressions of a template literal, the
  source text of the node (what \<open>getSourceCode().getText\<close> returns) and its range.
\<close>

datatype NodeKind = Literal | TemplateLiteral | OtherNode

record Node =
  kind :: NodeKind
  stringValue :: "jsstring option"
  expressions :: nat
  sourceText :: jsstring
  range_node :: "(nat \<times> nat) option"

record CallExpressionNode =
  arguments :: "Node list"

record ArgumentInfo =
  index :: nat
  isStringLiteral :: bool
  classString :: "jsstring option"
  node :: Node

definition extractArgument :: "nat \<times> Node \<Rightarrow> ArgumentInfo" where
  "extractArgument = (\<lambda>(i, arg).
     if kind arg = Literal \<and> stringValue arg \<noteq> None
     then \<lparr>index = i, isStringLiteral = True, classString = stringValue arg, node = arg\<rparr>
     else if kind arg = TemplateLiteral \<and> expressions arg = 0
     then \<lparr>index = i, isStringLiteral = True,
           classString = Some (slice (sourceText arg) 1 (-1)), node = arg\<rparr>
     else \<lparr>index = i, isStringLiteral = False, classString = None, node = arg\<rparr>)"

definition extractArgumentInfo :: "CallExpressionNode \<Rightarrow> ArgumentInfo list" where
  "extractArgumentInfo call = map extractArgument (enumerate 0 (arguments call))"

text \<open>
  \<open>info.isStringLiteral && info.classString\<close>: the class string when the argument is a
  string literal whose string is not empty.
\<close>

definition checkedString :: "ArgumentInfo \<Rightarrow> jsstring option" where
  "checkedString info =
     (if isStringLiteral info
      then (case classString info of
              Some s \<Rightarrow> if s \<noteq> [] then Some s else None
            | None \<Rightarrow> None)
      else None)"

datatype MessageId = splitModifier | multipleModifierGroups | mixedBaseAndModifiers

text \<open>
  A report: the node it is attached to (the call itself, or its argument \<open>i\<close>), the message
  and the data of the message. The fix attached to every report of this handler is
  \<open>generateFunctionCallFix\<close> on the argument list of the call.
\<close>

datatype ReportNode = CallNode | ArgumentNode nat

record Report =
  reportNode :: ReportNode
  messageId :: MessageId
  data :: "(string \<times> jsstring) list"

definition orElse :: "'a option \<Rightarrow> 'a \<Rightarrow> 'a" where
  "orElse x d = (case x of Some v \<Rightarrow> v | None \<Rightarrow> d)"

definition argumentOrCall :: "CallExpressionNode \<Rightarrow> nat \<Rightarrow> ReportNode" where
  "argumentOrCall call i = (if i < length (arguments call) then ArgumentNode i else CallNode)"

definition splitReport :: "jsstring list \<Rightarrow> Report" where
  "splitReport classStrings =
     \<lparr>reportNode = CallNode, messageId = splitModifier,
      data = [(''modifier'', orElse (getSplitModifier classStrings) (js ''same modifier''))]\<rparr>"

definition mixedReport :: "CallExpressionNode \<Rightarrow> nat \<Rightarrow> jsstring \<Rightarrow> Report" where
  "mixedReport call i s =
     \<lparr>reportNode = argumentOrCall call i, messageId = mixedBaseAndModifiers,
      data = [(''modifier'', orElse (getFirstModifier s) (js ''modifier classes''))]\<rparr>"

definition multipleReport :: "CallExpressionNode \<Rightarrow> nat \<Rightarrow> jsstring \<Rightarrow> Report" where
  "multipleReport call i s =
     (let modifiers = getFirstTwoModifiers s
      in \<lparr>reportNode = argumentOrCall call i, messageId = multipleModifierGroups,
          data = [(''modifier1'', orElse (map_option fst modifiers) (js ''different modifiers'')),
                  (''modifier2'', orElse (map_option snd modifiers) (js ''in same argument''))]\<rparr>)"

text \<open>The loop over the arguments, from position \<open>i\<close> on.\<close>

fun checkArguments :: "CallExpressionNode \<Rightarrow> nat \<Rightarrow> ArgumentInfo list \<Rightarrow> Report option" where
  "checkArguments call i [] = None"
| "checkArguments call i (info # rest) =
     (case checkedString info of
        None \<Rightarrow> checkArguments call (i + 1) rest
      | Some s \<Rightarrow>
          if mixesBaseAndModifiers s then Some (mixedReport call i s)
          else if hasMultipleModifierGroups s then Some (multipleReport call i s)
          else checkArguments call (i + 1) rest)"

definition handleStandardFunctionCall :: "CallExpressionNode \<Rightarrow> Report option" where
  "handleStandardFunctionCall call =
     (let argumentInfo = extractArgumentInfo call;
          classStrings = List.map_filter checkedString argumentInfo
      in if classStrings = [] then None
         else if hasSplitModifiers classStrings then Some (splitReport classStrings)
         else checkArguments call 0 argumentInfo)"

text \<open>
  What the per-argument loop looks for: a checked string that mixes base and modifier
  classes or has several modifier groups.
\<close>

definition violates :: "ArgumentInfo \<Rightarrow> bool" where
  "violates info =
     (case checkedString info of
        None \<Rightarrow> False
      | Some s \<Rightarrow> mixesBaseAndModifiers s \<or> hasMultipleModifierGroups s)"

section \<open>The constants\<close>

datatype ModifierPriority =
  BASE | PSEUDO_CLASS | RESPONSIVE | CHAINED | DARK | ARIA_DATA | ARBITRARY | UNKNOWN

fun priorityValue :: "ModifierPriority \<Rightarrow> int" where
  "priorityValue BASE = 0"
| "priorityValue PSEUDO_CLASS = 1"
| "priorityValue RESPONSIVE = 2"
| "priorityValue CHAINED = 3"
| "priorityValue DARK = 4"
| "priorityValue ARIA_DATA = 5"
| "priorityValue ARBITRARY = 6"
| "priorityValue UNKNOWN = 7"

definition RESPONSIVE_BREAKPOINTS :: "jsstring list" where
  "RESPONSIVE_BREAKPOINTS = map js [''sm'', ''md'', ''lg'', ''xl'', ''2xl'']"

definition PSEUDO_CLASS_VARIANTS :: "jsstring list" where
  "PSEUDO_CLASS_VARIANTS = map js
     [''focus'', ''focus-within'', ''focus-visible'', ''hover'', ''active'', ''visited'',
      ''target'', ''disabled'', ''enabled'', ''checked'', ''indeterminate'', ''default'',
      ''required'', ''optional'', ''placeholder-shown'', ''autofill'', ''read-only'',
      ''read-write'', ''empty'', ''only'', ''first'', ''last'', ''odd'', ''even'']"

definition GROUP_PEER_VARIANTS :: "jsstring list" where
  "GROUP_PEER_VARIANTS = map js [''group'', ''peer'']"

definition HAS_VARIANTS :: "jsstring list" where
  "HAS_VARIANTS = map js [''has'']"

definition SUPPORTS_VARIANTS :: "jsstring list" where
  "SUPPORTS_VARIANTS = map js [''supports'']"

definition KNOWN_VARIANT_ORDER :: "jsstring list" where
  "KNOWN_VARIANT_ORDER =
     [[]]
     @ PSEUDO_CLASS_VARIANTS
     @ GROUP_PEER_VARIANTS
     @ HAS_VARIANTS
     @ SUPPORTS_VARIANTS
     @ RESPONSIVE_BREAKPOINTS
     @ map js
        [''dark'',
         ''aria-checked'', ''aria-disabled'', ''aria-expanded'', ''aria-hidden'',
         ''aria-invalid'', ''aria-pressed'', ''aria-readonly'', ''aria-required'',
         ''aria-selected'',
         ''data-'']"

text \<open>
  The regular expressions of \<open>MODIFIER_PATTERNS\<close>, each as the predicate that its \<open>test\<close>
  computes. All are anchored at the start and none has a flag, so \<open>test\<close> has no state.
\<close>

definition startsWith :: "jsstring \<Rightarrow> jsstring \<Rightarrow> bool" where
  "startsWith s p \<longleftrightarrow> take (length p) s = p"

text \<open>
  \<open>.+\]:\<close> after at least one code unit has been matched by \<open>.+\<close>: some later position
  holds \<open>]:\<close>, and every code unit before it is matched by \<open>.\<close>.
\<close>

fun dotsThenBracketColon :: "jsstring \<Rightarrow> bool" where
  "dotsThenBracketColon (c # d # rest) \<longleftrightarrow>
     (c = 93 \<and> d = colon) \<or> (\<not> isLineTerminator c \<and> dotsThenBracketColon (d # rest))"
| "dotsThenBracketColon _ \<longleftrightarrow> False"

text \<open>\<open>/^\[.+\]:/\<close>\<close>

definition PATTERN_ARBITRARY :: "jsstring \<Rightarrow> bool" where
  "PATTERN_ARBITRARY s \<longleftrightarrow>
     (case s of
        c # d # rest \<Rightarrow> c = 91 \<and> \<not> isLineTerminator d \<and> dotsThenBracketColon rest
      | _ \<Rightarrow> False)"

text \<open>\<open>[a-z-]+:\<close> and \<open>([a-z-]+)?:\<close> at the start of a string.\<close>

definition lowerRunThenColon :: "jsstring \<Rightarrow> bool" where
  "lowerRunThenColon r \<longleftrightarrow>
     takeWhile isLowerOrDash r \<noteq> [] \<and> startsWith (dropWhile isLowerOrDash r) [colon]"

definition optLowerRunThenColon :: "jsstring \<Rightarrow> bool" where
  "optLowerRunThenColon r \<longleftrightarrow> startsWith (dropWhile isLowerOrDash r) [colon]"

text \<open>\<open>/^aria-[a-z-]+:/\<close>, \<open>/^data-[a-z-]+:/\<close> and \<open>/^dark:/\<close>\<close>

definition PATTERN_ARIA :: "jsstring \<Rightarrow> bool" where
  "PATTERN_ARIA s \<longleftrightarrow> startsWith s (js ''aria-'') \<and> lowerRunThenColon (drop 5 s)"

definition PATTERN_DATA :: "jsstring \<Rightarrow> bool" where
  "PATTERN_DATA s \<longleftrightarrow> startsWith s (js ''data-'') \<and> lowerRunThenColon (drop 5 s)"

definition PATTERN_DARK :: "jsstring \<Rightarrow> bool" where
  "PATTERN_DARK s \<longleftrightarrow> startsWith s (js ''dark:'')"

text \<open>\<open>^(sm|md|lg|xl|2xl):\<close> and the same over the pseudo-class names.\<close>

definition PATTERN_RESPONSIVE :: "jsstring \<Rightarrow> bool" where
  "PATTERN_RESPONSIVE s \<longleftrightarrow>
     list_ex (\<lambda>n. startsWith s (n @ [colon])) RESPONSIVE_BREAKPOINTS"

definition PATTERN_PSEUDO_CLASS :: "jsstring \<Rightarrow> bool" where
  "PATTERN_PSEUDO_CLASS s \<longleftrightarrow>
     list_ex (\<lambda>n. startsWith s (n @ [colon])) PSEUDO_CLASS_VARIANTS"

text \<open>\<open>^(group|peer)(-[a-z-]+)?:\<close>\<close>

definition PATTERN_GROUP_PEER :: "jsstring \<Rightarrow> bool" where
  "PATTERN_GROUP_PEER s \<longleftrightarrow>
     list_ex (\<lambda>n. startsWith s n
                 \<and> (let r = drop (length n) s
                    in startsWith r [colon]
                       \<or> (startsWith r [45] \<and> lowerRunThenColon (drop 1 r))))
       GROUP_PEER_VARIANTS"

text \<open>\<open>/^has-([a-z-]+)?:/\<close> and \<open>/^supports-([a-z-]+)?:/\<close>\<close>

definition PATTERN_HAS :: "jsstring \<Rightarrow> bool" where
  "PATTERN_HAS s \<longleftrightarrow> startsWith s (js ''has-'') \<and> optLowerRunThenColon (drop 4 s)"

definition PATTERN_SUPPORTS :: "jsstring \<Rightarrow> bool" where
  "PATTERN_SUPPORTS s \<longleftrightarrow> startsWith s (js ''supports-'') \<and> optLowerRunThenColon (drop 9 s)"

section \<open>The class sorter\<close>

definition isChained :: "jsstring \<Rightarrow> bool" where
  "isChained m \<longleftrightarrow>
     (let colonCount = length (filter (\<lambda>c. c = colon) m)
      in colonCount > 1
         \<and> (let parts = filter (\<lambda>f. f \<noteq> []) (splitAt colon [] m);
                 hasResponsive = list_ex (\<lambda>part. PATTERN_RESPONSIVE (part @ [colon])) parts;
                 hasPseudoClass = list_ex (\<lambda>part. PATTERN_PSEUDO_CLASS (part @ [colon])) parts
             in hasResponsive \<and> hasPseudoClass))"

definition getModifierPriority :: "jsstring option \<Rightarrow> ModifierPriority" where
  "getModifierPriority mo =
     (case mo of
        None \<Rightarrow> BASE
      | Some m \<Rightarrow>
          if PATTERN_ARBITRARY m then ARBITRARY
          else if isChained m then CHAINED
          else if PATTERN_DARK m then DARK
          else if PATTERN_ARIA m \<or> PATTERN_DATA m then ARIA_DATA
          else if PATTERN_RESPONSIVE m then RESPONSIVE
          else if PATTERN_GROUP_PEER m then PSEUDO_CLASS
          else if PATTERN_HAS m then PSEUDO_CLASS
          else if PATTERN_SUPPORTS m then PSEUDO_CLASS
          else if PATTERN_PSEUDO_CLASS m then PSEUDO_CLASS
          else UNKNOWN)"

definition getModifierSortOrder :: "jsstring option \<Rightarrow> int" where
  "getModifierSortOrder mo =
     (case mo of
        None \<Rightarrow> 0
      | Some m \<Rightarrow>
          if length m = 0 then 0
          else
            (let modifierWithoutColon = slice m 0 (-1)
             in if length modifierWithoutColon = 0 then 0
                else
                  (let knownIndex = indexOf KNOWN_VARIANT_ORDER modifierWithoutColon
                   in if knownIndex \<noteq> -1 then knownIndex
                      else
                        (let firstPartIndex =
                               (if colon \<in> set m
                                then indexOf KNOWN_VARIANT_ORDER (hd (splitAt colon [] m))
                                else -1)
                         in if firstPartIndex \<noteq> -1 then firstPartIndex + 1000
                            else 10000 + uint (hd modifierWithoutColon)))))"

text \<open>
  \<open>String.prototype.localeCompare\<close> belongs to the JavaScript runtime, not to this
  repository: it is a parameter \<open>lc\<close> of everything that calls it. What a theorem needs
  of it is a hypothesis of that theorem.
\<close>

type_synonym localeCompare = "jsstring \<Rightarrow> jsstring \<Rightarrow> int"

definition compareModifiers :: "localeCompare \<Rightarrow> jsstring option \<Rightarrow> jsstring option \<Rightarrow> int"
  where
  "compareModifiers lc a b =
     (let priorityA = getModifierPriority a; priorityB = getModifierPriority b
      in if priorityA \<noteq> priorityB then priorityValue priorityA - priorityValue priorityB
         else
           (let orderA = getModifierSortOrder a; orderB = getModifierSortOrder b
            in if orderA \<noteq> orderB then orderA - orderB
               else lc (orElse a []) (orElse b [])))"

text \<open>
  \<open>[...xs].sort(cmp)\<close>. \<open>Array.prototype.sort\<close> is stable, and for a consistent comparison
  function its result is determined: the elements in ascending order, equal ones in their
  original order. Insertion from the right computes that list; for any other comparison
  function the order is implementation-defined, and the result is a permutation of the
  array all the same.
\<close>

fun insertBy :: "('a \<Rightarrow> 'a \<Rightarrow> int) \<Rightarrow> 'a \<Rightarrow> 'a list \<Rightarrow> 'a list" where
  "insertBy cmp x [] = [x]"
| "insertBy cmp x (y # ys) = (if cmp x y \<le> 0 then x # y # ys else y # insertBy cmp x ys)"

definition jsSort :: "('a \<Rightarrow> 'a \<Rightarrow> int) \<Rightarrow> 'a list \<Rightarrow> 'a list" where
  "jsSort cmp xs = foldr (insertBy cmp) xs []"

definition sortModifierGroups :: "localeCompare \<Rightarrow> ModifierGroup list \<Rightarrow> ModifierGroup list"
  where
  "sortModifierGroups lc groups =
     jsSort (\<lambda>a b. compareModifiers lc (ModifierGroup.modifier a) (ModifierGroup.modifier b))
       groups"

definition sortClassesInGroup :: "localeCompare \<Rightarrow> jsstring list \<Rightarrow> jsstring list" where
  "sortClassesInGroup lc cls = jsSort lc cls"

definition sortClassesByModifierGroups :: "localeCompare \<Rightarrow> jsstring list \<Rightarrow> ModifierGroup list"
  where
  "sortClassesByModifierGroups lc cls =
     (let groupsMap = groupClassesByModifier cls;
          groups = map (\<lambda>(m, cs). \<lparr>modifier = m, classes = sortClassesInGroup lc cs\<rparr>) groupsMap
      in sortModifierGroups lc groups)"

text \<open>
  A comparison function is consistent when exchanging its arguments exchanges the sign of
  its result and its \<open>\<le>\<close> is transitive; ECMAScript requires this of \<open>localeCompare\<close>. It is
  strict when, in addition, only equal arguments compare as equal.
\<close>

definition consistentComparator :: "('a \<Rightarrow> 'a \<Rightarrow> int) \<Rightarrow> bool" where
  "consistentComparator cmp \<longleftrightarrow>
     (\<forall>a b. cmp a b < 0 \<longleftrightarrow> 0 < cmp b a)
     \<and> (\<forall>a b c. cmp a b \<le> 0 \<and> cmp b c \<le> 0 \<longrightarrow> cmp a c \<le> 0)"

definition strictComparator :: "('a \<Rightarrow> 'a \<Rightarrow> int) \<Rightarrow> bool" where
  "strictComparator cmp \<longleftrightarrow> consistentComparator cmp \<and> (\<forall>a b. cmp a b = 0 \<longrightarrow> a = b)"

text \<open>
  A comparison that is consistent and strict, to instantiate \<open>lc\<close> with: the order of the
  code units.
\<close>

definition codeUnitCompare :: localeCompare where
  "codeUnitCompare a b = (if a < b then -1 else if a = b then 0 else 1)"



section \<open>The fix generator\<close>

record Fix =
  range_fix :: "nat \<times> nat"
  text_fix :: jsstring

text \<open>\<open>arg.replace(/"/g, '\\"')\<close>, and the argument text \<open>"..."\<close> built from it.\<close>

definition escapeQuotes :: "jsstring \<Rightarrow> jsstring" where
  "escapeQuotes s = concat (map (\<lambda>c. if c = dquote then [backslash, dquote] else [c]) s)"

definition quoted :: "jsstring \<Rightarrow> jsstring" where
  "quoted s = [dquote] @ escapeQuotes s @ [dquote]"

definition processClassesIntoArguments :: "localeCompare \<Rightarrow> jsstring \<Rightarrow> jsstring list option"
  where
  "processClassesIntoArguments lc classStr =
     (if classStr = [] \<or> length (trim classStr) = 0 then None
      else
        (let parsedClasses = map full (parseClasses classStr)
         in if length parsedClasses = 0 then None
            else
              (let groups = sortClassesByModifierGroups lc parsedClasses
               in if length groups = 0 then None
                  else
                    (let arguments1 =
                           List.map_filter
                             (\<lambda>g. let groupString = join [space] (sortClassesInGroup lc (classes g))
                                  in if groupString \<noteq> [] then Some (quoted groupString) else None)
                             (filter (\<lambda>g. classes g \<noteq> []) groups)
                     in if length arguments1 = 0 then None else Some arguments1))))"

text \<open>
  The three stages of \<open>generateFunctionCallFix\<close>, named after its local variables: the
  classes of all checked string arguments, the new string arguments (one per group), and
  the argument texts of the rewritten call.
\<close>

definition allClasses :: "ArgumentInfo list \<Rightarrow> jsstring list" where
  "allClasses argumentInfo =
     concat (map (\<lambda>info. case checkedString info of
                            Some s \<Rightarrow> map full (parseClasses s)
                          | None \<Rightarrow> [])
               argumentInfo)"

definition newStringArguments :: "localeCompare \<Rightarrow> ModifierGroup list \<Rightarrow> jsstring list" where
  "newStringArguments lc groups =
     List.map_filter
       (\<lambda>g. if classes g = [] then None
            else (let groupString = join [space] (sortClassesInGroup lc (classes g))
                  in if groupString \<noteq> [] then Some groupString else None))
       groups"

definition allArguments :: "jsstring list \<Rightarrow> ArgumentInfo list \<Rightarrow> jsstring list" where
  "allArguments new argumentInfo =
     (let (args, hasAddedNewStrings) =
            foldl (\<lambda>(args, hasAddedNewStrings) info.
                     if isStringLiteral info
                     then (if \<not> hasAddedNewStrings then (args @ map quoted new, True)
                           else (args, hasAddedNewStrings))
                     else (args @ [sourceText (node info)], hasAddedNewStrings))
              ([], False) argumentInfo
      in if \<not> hasAddedNewStrings \<and> length new > 0 then args @ map quoted new else args)"

definition generateFunctionCallFix ::
  "localeCompare \<Rightarrow> CallExpressionNode \<Rightarrow> ArgumentInfo list \<Rightarrow> jsstring \<Rightarrow> Fix option" where
  "generateFunctionCallFix lc call argumentInfo preferredFunction =
     (let cls = allClasses argumentInfo
      in if length cls = 0 then None
         else
           (let groups = sortClassesByModifierGroups lc cls
            in if length groups = 0 then None
               else
                 (let new = newStringArguments lc groups
                  in if length new = 0 then None
                     else
                       (let args = allArguments new argumentInfo;
                            originalStringArgs = List.map_filter checkedString argumentInfo
                        in if length new = length originalStringArgs
                              \<and> list_all (\<lambda>(arg, orig). arg = orig) (zip new originalStringArgs)
                           then None
                           else
                             (case arguments call of
                                [] \<Rightarrow> None
                              | first # _ \<Rightarrow>
                                  (case (range_node first, range_node (last (arguments call))) of
                                     (Some (start, _), Some (_, end)) \<Rightarrow>
                                       Some \<lparr>range_fix = (start, end),
                                             text_fix = join (js '', '') args\<rparr>
                                   | _ \<Rightarrow> None))))))"

text \<open>
  The two fixes that wrap a single class string. Of the nodes they are given, they read
  the range of the value of the JSX attribute (the attribute may have no value, and a
  value may have no valid range), and the kind and the range of the value of the property.
\<close>

record JSXAttributeNode =
  value_jsx :: "(nat \<times> nat) option option"

record PropertyNode =
  valueKind :: NodeKind
  valueRange :: "(nat \<times> nat) option"

definition generateJSXAttributeFix ::
  "localeCompare \<Rightarrow> JSXAttributeNode \<Rightarrow> jsstring \<Rightarrow> jsstring \<Rightarrow> Fix option" where
  "generateJSXAttributeFix lc attr classStr preferredFunction =
     (let needsWrapping = mixesBaseAndModifiers classStr \<or> hasMultipleModifierGroups classStr
      in if \<not> needsWrapping then None
         else
           (case processClassesIntoArguments lc classStr of
              None \<Rightarrow> None
            | Some arguments1 \<Rightarrow>
                (let newCode = preferredFunction @ js ''('' @ join (js '', '') arguments1 @ js '')''
                 in case value_jsx attr of
                      None \<Rightarrow> None
                    | Some None \<Rightarrow> None
                    | Some (Some (start, end)) \<Rightarrow>
                        Some \<lparr>range_fix = (start, end),
                              text_fix = js ''{'' @ newCode @ js ''}''\<rparr>)))"

definition generateVariantValueFix ::
  "localeCompare \<Rightarrow> PropertyNode \<Rightarrow> jsstring \<Rightarrow> jsstring \<Rightarrow> Fix option" where
  "generateVariantValueFix lc prop classStr preferredFunction =
     (let needsWrapping = mixesBaseAndModifiers classStr \<or> hasMultipleModifierGroups classStr
      in if \<not> needsWrapping then None
         else
           (case processClassesIntoArguments lc classStr of
              None \<Rightarrow> None
            | Some arguments1 \<Rightarrow>
                (let newCode = preferredFunction @ js ''('' @ join (js '', '') arguments1 @ js '')''
                 in if valueKind prop \<noteq> Literal \<and> valueKind prop \<noteq> TemplateLiteral then None
                    else
                      (case valueRange prop of
                         None \<Rightarrow> None
                       | Some (start, end) \<Rightarrow>
                           Some \<lparr>range_fix = (start, end), text_fix = newCode\<rparr>))))"

text \<open>
  \<open>verifyFixNonDestructive\<close>. A \<open>Set\<close> of strings is a list without repetitions. The loop
  over \<open>/["']([^"']+)["']/g\<close> yields, from left to right, every non-empty run of code
  units other than quotes that stands between two quotes; the closing quote of a match is
  consumed by it.
\<close>

definition setAdd :: "'a list \<Rightarrow> 'a \<Rightarrow> 'a list" where
  "setAdd xs x = (if x \<in> set xs then xs else xs @ [x])"

definition isQuote :: "16 word \<Rightarrow> bool" where
  "isQuote c \<longleftrightarrow> c = dquote \<or> c = squote"

function quotedMatches :: "jsstring \<Rightarrow> jsstring list" where
  "quotedMatches [] = []"
| "quotedMatches (c # cs) =
     (if isQuote c
      then (let run = takeWhile (\<lambda>d. \<not> isQuote d) cs;
                rest = dropWhile (\<lambda>d. \<not> isQuote d) cs
            in if run \<noteq> [] \<and> rest \<noteq> [] then run # quotedMatches (tl rest)
               else quotedMatches cs)
      else quotedMatches cs)"
  by pat_completeness auto
termination
proof (relation "measure length")
  fix c :: "16 word" and cs x xa :: jsstring
  assume "xa = dropWhile (\<lambda>d. \<not> isQuote d) cs"
  then have "length (tl xa) \<le> length cs"
    using length_dropWhile_le [of "\<lambda>d. \<not> isQuote d" cs] by simp
  then show "(tl xa, c # cs) \<in> measure length" by simp
qed simp_all

definition classSet :: "jsstring list \<Rightarrow> jsstring list" where
  "classSet classStrs =
     foldl (\<lambda>acc classStr. foldl (\<lambda>acc p. setAdd acc (full p)) acc (parseClasses classStr))
       [] classStrs"

definition verifyFixNonDestructive :: "jsstring list \<Rightarrow> jsstring \<Rightarrow> bool" where
  "verifyFixNonDestructive inputClasses outputCode =
     (let inputClassSet = classSet inputClasses;
          outputClassSet = classSet (quotedMatches outputCode)
      in if \<not> list_all (\<lambda>className. className \<in> set outputClassSet) inputClassSet then False
         else if \<not> list_all (\<lambda>className. className \<in> set inputClassSet) outputClassSet
         then False
         else True)"

section \<open>Reading the string literals of a replacement text\<close>

text \<open>
  The replacement text of a fix is JavaScript source. What a double-quoted string literal
  of that source denotes is fixed by the language: \<open>\"\<close> denotes a quote, \<open>\\\<close> a
  backslash, \<open>\b \t \n \v \f \r\<close> the control characters, and a backslash before any
  other code unit that starts no longer escape denotes that code unit. The escapes that
  start with a digit, \<open>x\<close> or \<open>u\<close> and the line continuation are not modelled: their
  value is \<open>None\<close>.
\<close>

definition escapeValue :: "16 word \<Rightarrow> 16 word option" where
  "escapeValue e =
     (if e = 98 then Some 8
      else if e = 116 then Some 9
      else if e = 110 then Some 10
      else if e = 118 then Some 11
      else if e = 102 then Some 12
      else if e = 114 then Some 13
      else if (48 \<le> e \<and> e \<le> 57) \<or> e = 120 \<or> e = 117 \<or> isLineTerminator e then None
      else Some e)"

text \<open>
  The values of the arguments of a text that consists of double-quoted string literals
  separated by commas and spaces; \<open>None\<close> for any other text. The first argument is the
  value read so far of the literal being read, reversed, or \<open>None\<close> between literals.
\<close>

fun stringLiteralArguments :: "jsstring option \<Rightarrow> jsstring \<Rightarrow> jsstring list option" where
  "stringLiteralArguments None [] = Some []"
| "stringLiteralArguments (Some acc) [] = None"
| "stringLiteralArguments None (c # cs) =
     (if c = dquote then stringLiteralArguments (Some []) cs
      else if c = 44 \<or> c = space then stringLiteralArguments None cs
      else None)"
| "stringLiteralArguments (Some acc) [c] = (if c = dquote then Some [rev acc] else None)"
| "stringLiteralArguments (Some acc) (c # e # cs) =
     (if c = dquote then map_option (Cons (rev acc)) (stringLiteralArguments None (e # cs))
      else if c = backslash
      then (case escapeValue e of
              None \<Rightarrow> None
            | Some v \<Rightarrow> stringLiteralArguments (Some (v # acc)) cs)
      else if c = 10 \<or> c = 13 then None
      else stringLiteralArguments (Some (c # acc)) (e # cs))"

text \<open>The class tokens of the string literal arguments of a replacement text.\<close>

definition tokensOfText :: "jsstring \<Rightarrow> jsstring list option" where
  "tokensOfText t =
     map_option (\<lambda>vs. concat (map (\<lambda>v. map full (parseClasses v)) vs))
       (stringLiteralArguments None t)"

section \<open>Notions used in the proofs\<close>

text \<open>A class token: not empty, and without white space.\<close>

definition isToken :: "jsstring \<Rightarrow> bool" where
  "isToken c \<longleftrightarrow> c \<noteq> [] \<and> \<not> list_ex isSpace c"

text \<open>
  The key under which the grouper files a class, and the shape of every map it builds:
  distinct keys, no empty group, and every class under its own key.
\<close>

definition keyOf :: "jsstring \<Rightarrow> jsstring option" where
  "keyOf c = ParsedClass.modifier (parseClass c)"

definition wellGrouped :: "(jsstring option, jsstring list) jsmap \<Rightarrow> bool" where
  "wellGrouped g \<longleftrightarrow>
     distinct (map fst g) \<and> (\<forall>(k, cs) \<in> set g. cs \<noteq> [] \<and> (\<forall>c \<in> set cs. keyOf c = k))"

section \<open>Example calls\<close>

text \<open>
  \<open>cn("hover:bg-red", "hover:text-white")\<close>, from the tests of the rule: one modifier in
  two arguments.
\<close>

definition splitCall :: CallExpressionNode where
  "splitCall =
     \<lparr>arguments =
        [\<lparr>kind = Literal, stringValue = Some (js ''hover:bg-red''), expressions = 0,
          sourceText = [dquote] @ js ''hover:bg-red'' @ [dquote], range_node = Some (3, 17)\<rparr>,
         \<lparr>kind = Literal, stringValue = Some (js ''hover:text-white''), expressions = 0,
          sourceText = [dquote] @ js ''hover:text-white'' @ [dquote],
          range_node = Some (19, 37)\<rparr>]\<rparr>"

text \<open>\<open>cn("bg-red", "hover:a focus:b")\<close>: two modifier groups in the second argument.\<close>

definition multipleCall :: CallExpressionNode where
  "multipleCall =
     \<lparr>arguments =
        [\<lparr>kind = Literal, stringValue = Some (js ''bg-red''), expressions = 0,
          sourceText = [dquote] @ js ''bg-red'' @ [dquote], range_node = Some (3, 11)\<rparr>,
         \<lparr>kind = Literal, stringValue = Some (js ''hover:a focus:b''), expressions = 0,
          sourceText = [dquote] @ js ''hover:a focus:b'' @ [dquote],
          range_node = Some (13, 30)\<rparr>]\<rparr>"

text \<open>
  \<open>cn("base mod-a:x mod-b:y")\<close>: one argument that mixes base and modifier classes and
  also has several modifier groups.
\<close>

definition mixedCall :: CallExpressionNode where
  "mixedCall =
     \<lparr>arguments =
        [\<lparr>kind = Literal, stringValue = Some (js ''base mod-a:x mod-b:y''), expressions = 0,
          sourceText = [dquote] @ js ''base mod-a:x mod-b:y'' @ [dquote],
          range_node = Some (3, 25)\<rparr>]\<rparr>"

text \<open>
  \<open>cn("x\\ty md:z")\<close>: the value of the argument is the nine code units \<open>x\ty md:z\<close>, the
  second of them a backslash; in the source text of the argument the backslash is doubled.
\<close>

definition backslashCall :: CallExpressionNode where
  "backslashCall =
     \<lparr>arguments =
        [\<lparr>kind = Literal,
          stringValue = Some (js ''x'' @ [backslash] @ js ''ty md:z''),
          expressions = 0,
          sourceText = [dquote] @ js ''x'' @ [backslash, backslash] @ js ''ty md:z'' @ [dquote],
          range_node = Some (3, 15)\<rparr>]\<rparr>"

text \<open>\<open>cn("", "   ", className)\<close>: every string argument is empty or blank.\<close>

definition blankCall :: CallExpressionNode where
  "blankCall =
     \<lparr>arguments =
        [\<lparr>kind = Literal, stringValue = Some [], expressions = 0,
          sourceText = [dquote, dquote], range_node = Some (3, 5)\<rparr>,
         \<lparr>kind = Literal, stringValue = Some (js ''   ''), expressions = 0,
          sourceText = [dquote] @ js ''   '' @ [dquote], range_node = Some (7, 12)\<rparr>,
         \<lparr>kind = OtherNode, stringValue = None, expressions = 0,
          sourceText = js ''className'', range_node = Some (14, 23)\<rparr>]\<rparr>"

text \<open>The output code \<open>cn("a", "b")\<close>.\<close>

definition outputAB :: jsstring where
  "outputAB = js ''cn('' @ [dquote] @ js ''a'' @ [dquote] @ js '', ''
              @ [dquote] @ js ''b'' @ [dquote] @ js '')''"







section \<open>Facts about the string operations\<close>

lemma lastIndexOf_range: "-1 \<le> lastIndexOf s c \<and> lastIndexOf s c < int (length s)"
  by (induction s) (auto simp: Let_def)

lemma lastIndexOf_absent: "lastIndexOf s c = -1 \<longleftrightarrow> c \<notin> set s"
proof (induction s)
  case Nil
  show ?case by simp
next
  case (Cons x xs)
  have "-1 \<le> lastIndexOf xs c" using lastIndexOf_range [of xs c] by simp
  with Cons show ?case by (auto simp: Let_def)
qed

lemma lastIndexOf_present:
  "c \<in> set s \<Longrightarrow>
     \<exists>k. lastIndexOf s c = int k \<and> k < length s
        \<and> take (Suc k) s = take k s @ [c] \<and> c \<notin> set (drop (Suc k) s)"
proof (induction s)
  case Nil
  then show ?case by simp
next
  case (Cons x xs)
  show ?case
  proof (cases "c \<in> set xs")
    case True
    from Cons.IH [OF True] obtain k where k:
      "lastIndexOf xs c = int k" "k < length xs"
      "take (Suc k) xs = take k xs @ [c]" "c \<notin> set (drop (Suc k) xs)"
      by blast
    have "lastIndexOf (x # xs) c = int (Suc k)"
      using k(1) by (simp add: Let_def)
    moreover have "take (Suc (Suc k)) (x # xs) = take (Suc k) (x # xs) @ [c]"
      using k(3) by simp
    ultimately show ?thesis using k(2) k(4)
      by (intro exI [of _ "Suc k"]) simp
  next
    case False
    then have "lastIndexOf xs c = -1" by (simp add: lastIndexOf_absent)
    moreover from False Cons.prems have "x = c" by simp
    ultimately show ?thesis using False
      by (intro exI [of _ 0]) (simp add: Let_def)
  qed
qed

lemma slice_prefix: "slice s 0 (int n) = take n s"
  by (simp add: slice_def clampIndex_def Let_def min_def)

lemma sliceFrom_drop: "sliceFrom s (int n) = drop n s"
  by (simp add: sliceFrom_def clampIndex_def min_def)

lemma slice_butlast: "slice s 0 (-1) = butlast s"
proof (cases "s = []")
  case True
  then show ?thesis by (simp add: slice_def clampIndex_def)
next
  case False
  then have "nat (int (length s) - 1) = length s - 1" by (cases s) auto
  with False show ?thesis
    by (simp add: slice_def clampIndex_def Let_def butlast_conv_take)
qed

lemma parseClass_no_colon:
  "colon \<notin> set s \<Longrightarrow> parseClass s = \<lparr>full = s, ParsedClass.modifier = None, base = s\<rparr>"
  by (simp add: parseClass_def lastIndexOf_absent)

lemma parseClass_colon:
  assumes "colon \<in> set s"
  shows "\<exists>k. k < length s
           \<and> parseClass s
               = \<lparr>full = s, ParsedClass.modifier = Some (take k s @ [colon]), base = drop (Suc k) s\<rparr>
           \<and> take (Suc k) s = take k s @ [colon]
           \<and> colon \<notin> set (drop (Suc k) s)"
proof -
  from lastIndexOf_present [OF assms] obtain k where k:
    "lastIndexOf s colon = int k" "k < length s"
    "take (Suc k) s = take k s @ [colon]" "colon \<notin> set (drop (Suc k) s)"
    by blast
  from assms have ne: "s \<noteq> []" by auto
  have "int k + 1 = int (Suc k)" by simp
  then have "parseClass s
      = \<lparr>full = s, ParsedClass.modifier = Some (take (Suc k) s), base = drop (Suc k) s\<rparr>"
    using ne k(1)
    by (simp only: parseClass_def Let_def slice_prefix sliceFrom_drop) simp
  with k show ?thesis by auto
qed

lemma parseClass_full: "full (parseClass s) = s"
proof (cases "colon \<in> set s")
  case True
  from parseClass_colon [OF True] show ?thesis by auto
next
  case False
  then show ?thesis by (simp add: parseClass_no_colon)
qed

lemma modifier_None_iff: "ParsedClass.modifier (parseClass s) = None \<longleftrightarrow> colon \<notin> set s"
proof (cases "colon \<in> set s")
  case True
  from parseClass_colon [OF True] show ?thesis using True by auto
next
  case False
  then show ?thesis by (simp add: parseClass_no_colon)
qed

section \<open>The parser splits at the rightmost colon\<close>

text \<open>
  C7. For every string \<open>s\<close>, \<open>parseClass\<close> splits at the rightmost colon. Without a colon
  the modifier is null and the base is the whole string. With a colon the modifier is the
  prefix up to and including a colon after which no colon follows, and the base is the
  rest. In both cases a null modifier has \<open>base = full\<close>, a non-null one has
  \<open>full = modifier + base\<close>; and \<open>"a:b:c"\<close> parses to modifier \<open>"a:b:"\<close> and base \<open>"c"\<close>.
\<close>

theorem parseClass_rightmost_colon:
  "(colon \<notin> set s \<longrightarrow> parseClass s = \<lparr>full = s, ParsedClass.modifier = None, base = s\<rparr>)
   \<and> (colon \<in> set s \<longrightarrow>
        (\<exists>pre. ParsedClass.modifier (parseClass s) = Some (pre @ [colon])
              \<and> s = pre @ [colon] @ base (parseClass s)
              \<and> colon \<notin> set (base (parseClass s))
              \<and> full (parseClass s) = s))
   \<and> (case ParsedClass.modifier (parseClass s) of
         None \<Rightarrow> base (parseClass s) = full (parseClass s)
       | Some m \<Rightarrow> full (parseClass s) = m @ base (parseClass s))
   \<and> parseClass (js ''a:b:c'')
       = \<lparr>full = js ''a:b:c'', ParsedClass.modifier = Some (js ''a:b:''), base = js ''c''\<rparr>"
proof (intro conjI impI)
  assume "colon \<notin> set s"
  then show "parseClass s = \<lparr>full = s, ParsedClass.modifier = None, base = s\<rparr>"
    by (rule parseClass_no_colon)
next
  assume c: "colon \<in> set s"
  from parseClass_colon [OF c] obtain k where k:
    "parseClass s
      = \<lparr>full = s, ParsedClass.modifier = Some (take k s @ [colon]), base = drop (Suc k) s\<rparr>"
    "take (Suc k) s = take k s @ [colon]" "colon \<notin> set (drop (Suc k) s)"
    by blast
  have "s = take (Suc k) s @ drop (Suc k) s" by simp
  then have "s = take k s @ [colon] @ drop (Suc k) s"
    using k(2) by simp
  with k show "\<exists>pre. ParsedClass.modifier (parseClass s) = Some (pre @ [colon])
              \<and> s = pre @ [colon] @ base (parseClass s)
              \<and> colon \<notin> set (base (parseClass s))
              \<and> full (parseClass s) = s"
    by (intro exI [of _ "take k s"]) simp
next
  show "case ParsedClass.modifier (parseClass s) of
         None \<Rightarrow> base (parseClass s) = full (parseClass s)
       | Some m \<Rightarrow> full (parseClass s) = m @ base (parseClass s)"
  proof (cases "colon \<in> set s")
    case True
    from parseClass_colon [OF True] obtain k where k:
      "parseClass s
        = \<lparr>full = s, ParsedClass.modifier = Some (take k s @ [colon]), base = drop (Suc k) s\<rparr>"
      "take (Suc k) s = take k s @ [colon]"
      by blast
    have "s = take (Suc k) s @ drop (Suc k) s" by simp
    then have "s = (take k s @ [colon]) @ drop (Suc k) s"
      using k(2) by simp
    with k(1) show ?thesis by simp
  next
    case False
    then show ?thesis by (simp add: parseClass_no_colon)
  qed
next
  show "parseClass (js ''a:b:c'')
       = \<lparr>full = js ''a:b:c'', ParsedClass.modifier = Some (js ''a:b:''), base = js ''c''\<rparr>"
    by (simp add: parseClass_def js_def colon_def Let_def slice_def sliceFrom_def
        clampIndex_def)
qed

theorem parseClass_rightmost_colon_witness:
  "colon \<in> set (js ''md:hover:bg-red'')
   \<and> colon \<notin> set (js ''bg-red'')
   \<and> parseClass (js ''bg-red'')
       = \<lparr>full = js ''bg-red'', ParsedClass.modifier = None, base = js ''bg-red''\<rparr>
   \<and> (\<exists>pre. ParsedClass.modifier (parseClass (js ''md:hover:bg-red'')) = Some (pre @ [colon])
         \<and> js ''md:hover:bg-red'' = pre @ [colon] @ base (parseClass (js ''md:hover:bg-red'')))"
proof -
  have a: "colon \<in> set (js ''md:hover:bg-red'')"
    by (simp add: js_def colon_def)
  have b: "colon \<notin> set (js ''bg-red'')"
    by (simp add: js_def colon_def)
  from a b parseClass_rightmost_colon [of "js ''md:hover:bg-red''"]
    parseClass_rightmost_colon [of "js ''bg-red''"]
  show ?thesis by blast
qed

section \<open>The priority of the violation checks\<close>

lemma checkArguments_first:
  "checkArguments call i infos =
     (case find (\<lambda>(j, info). violates info) (enumerate i infos) of
        None \<Rightarrow> None
      | Some (j, info) \<Rightarrow>
          Some (let s = orElse (checkedString info) []
                in if mixesBaseAndModifiers s then mixedReport call j s
                   else multipleReport call j s))"
  by (induction infos arbitrary: i)
     (auto simp: violates_def orElse_def split: option.splits)

lemma hasSplitModifiers_Nil: "\<not> hasSplitModifiers []"
  by (simp add: hasSplitModifiers_def modifierToSources_def)

lemma map_filter_Nil_iff: "List.map_filter f xs = [] \<longleftrightarrow> (\<forall>x \<in> set xs. f x = None)"
  by (induction xs) (auto simp: List.map_filter_simps split: option.splits)

lemma checkArguments_unchecked:
  "\<forall>x \<in> set infos. checkedString x = None \<Longrightarrow> checkArguments call i infos = None"
  by (induction infos arbitrary: i) auto

lemma priority_example:
  "mixesBaseAndModifiers (js ''base mod-a:x mod-b:y'')
   \<and> hasMultipleModifierGroups (js ''base mod-a:x mod-b:y'')
   \<and> map_option messageId
        (handleStandardFunctionCall mixedCall)
      = Some mixedBaseAndModifiers"
  by code_simp

text \<open>
  C4. For every call, with the contents of its checked string arguments taken in order:
  if the split-modifier check holds of them, the verdict is the \<open>splitModifier\<close> report
  and no argument is checked on its own. If it does not hold, the verdict is that of the
  first argument, in order, that mixes base and modifier classes or has several modifier
  groups, and there is no report when there is no such argument; for that argument the
  report is \<open>mixedBaseAndModifiers\<close> whenever it mixes base and modifier classes, and
  \<open>multipleModifierGroups\<close> only otherwise. The string \<open>"base mod-a:x mod-b:y"\<close>
  satisfies both predicates and is reported as \<open>mixedBaseAndModifiers\<close>.
\<close>

theorem handleStandardFunctionCall_priority:
  "(hasSplitModifiers (List.map_filter checkedString (extractArgumentInfo call)) \<longrightarrow>
      handleStandardFunctionCall call
        = Some (splitReport (List.map_filter checkedString (extractArgumentInfo call))))
   \<and> (\<not> hasSplitModifiers (List.map_filter checkedString (extractArgumentInfo call)) \<longrightarrow>
      handleStandardFunctionCall call
        = (case find (\<lambda>(j, info). violates info) (enumerate 0 (extractArgumentInfo call)) of
             None \<Rightarrow> None
           | Some (j, info) \<Rightarrow>
               Some (let s = orElse (checkedString info) []
                     in if mixesBaseAndModifiers s then mixedReport call j s
                        else multipleReport call j s)))
   \<and> mixesBaseAndModifiers (js ''base mod-a:x mod-b:y'')
   \<and> hasMultipleModifierGroups (js ''base mod-a:x mod-b:y'')
   \<and> map_option messageId
        (handleStandardFunctionCall mixedCall)
      = Some mixedBaseAndModifiers"
proof (intro conjI impI)
  let ?cs = "List.map_filter checkedString (extractArgumentInfo call)"
  assume h: "hasSplitModifiers ?cs"
  then have "?cs \<noteq> []" using hasSplitModifiers_Nil by auto
  with h show "handleStandardFunctionCall call = Some (splitReport ?cs)"
    by (simp add: handleStandardFunctionCall_def Let_def)
next
  let ?infos = "extractArgumentInfo call"
  let ?cs = "List.map_filter checkedString ?infos"
  assume h: "\<not> hasSplitModifiers ?cs"
  have "handleStandardFunctionCall call = checkArguments call 0 ?infos"
  proof (cases "?cs = []")
    case True
    then have u: "\<forall>x \<in> set ?infos. checkedString x = None"
      by (simp add: map_filter_Nil_iff)
    have "handleStandardFunctionCall call = None"
      using True by (simp add: handleStandardFunctionCall_def Let_def)
    with checkArguments_unchecked [OF u] show ?thesis by simp
  next
    case False
    with h show ?thesis
      by (simp add: handleStandardFunctionCall_def Let_def)
  qed
  then show "handleStandardFunctionCall call
        = (case find (\<lambda>(j, info). violates info) (enumerate 0 ?infos) of
             None \<Rightarrow> None
           | Some (j, info) \<Rightarrow>
               Some (let s = orElse (checkedString info) []
                     in if mixesBaseAndModifiers s then mixedReport call j s
                        else multipleReport call j s))"
    by (simp only: checkArguments_first)
qed (use priority_example in blast)+

theorem handleStandardFunctionCall_priority_witness:
  "hasSplitModifiers (List.map_filter checkedString (extractArgumentInfo splitCall))
   \<and> map_option messageId (handleStandardFunctionCall splitCall) = Some splitModifier
   \<and> \<not> hasSplitModifiers (List.map_filter checkedString (extractArgumentInfo multipleCall))
   \<and> handleStandardFunctionCall multipleCall
       = Some \<lparr>reportNode = ArgumentNode 1, messageId = multipleModifierGroups,
               data = [(''modifier1'', js ''hover:''), (''modifier2'', js ''focus:'')]\<rparr>"
proof -
  have a: "hasSplitModifiers (List.map_filter checkedString (extractArgumentInfo splitCall))"
    by code_simp
  have b: "\<not> hasSplitModifiers (List.map_filter checkedString (extractArgumentInfo multipleCall))"
    by code_simp
  have c: "(case find (\<lambda>(j, info). violates info) (enumerate 0 (extractArgumentInfo multipleCall)) of
             None \<Rightarrow> None
           | Some (j, info) \<Rightarrow>
               Some (let s = orElse (checkedString info) []
                     in if mixesBaseAndModifiers s then mixedReport multipleCall j s
                        else multipleReport multipleCall j s))
       = Some \<lparr>reportNode = ArgumentNode 1, messageId = multipleModifierGroups,
               data = [(''modifier1'', js ''hover:''), (''modifier2'', js ''focus:'')]\<rparr>"
    by code_simp
  from handleStandardFunctionCall_priority [of splitCall] a
  have "handleStandardFunctionCall splitCall
        = Some (splitReport (List.map_filter checkedString (extractArgumentInfo splitCall)))"
    by blast
  then have d: "map_option messageId (handleStandardFunctionCall splitCall) = Some splitModifier"
    by (simp add: splitReport_def)
  from handleStandardFunctionCall_priority [of multipleCall] b c
  have "handleStandardFunctionCall multipleCall
       = Some \<lparr>reportNode = ArgumentNode 1, messageId = multipleModifierGroups,
               data = [(''modifier1'', js ''hover:''), (''modifier2'', js ''focus:'')]\<rparr>"
    by simp
  with a b d show ?thesis by blast
qed

section \<open>Base classes in two arguments count as a split modifier\<close>

text \<open>
  C2 says that \<open>hasSplitModifiers\<close> is true only when a non-null modifier occurs in the
  groupings of two arguments. On \<open>["bg-red", "text-white"]\<close> every group of either
  string has the null modifier, and \<open>hasSplitModifiers\<close> is true all the same: its final
  loop looks at the sources of every key, the null key included. \<open>getSplitModifier\<close>,
  which builds the same map, skips the null key and returns null on this input.
\<close>

theorem hasSplitModifiers_base_classes:
  "map (\<lambda>s. map ModifierGroup.modifier (groupClassString s)) [js ''bg-red'', js ''text-white'']
     = [[None], [None]]
   \<and> hasSplitModifiers [js ''bg-red'', js ''text-white'']
   \<and> getSplitModifier [js ''bg-red'', js ''text-white''] = None"
  by code_simp

section \<open>The result of the comparison is a difference\<close>

text \<open>
  C3 says that \<open>compareModifiers\<close> returns \<open>-1\<close>, \<open>0\<close> or \<open>1\<close>, as its own
  documentation does. \<open>compareModifiers("md:", "dark:")\<close>, an input of the tests of the
  sorter, is the difference of the priorities \<open>RESPONSIVE = 2\<close> and \<open>DARK = 4\<close>,
  whatever \<open>localeCompare\<close> is.
\<close>

theorem compareModifiers_md_dark:
  "getModifierPriority (Some (js ''md:'')) = RESPONSIVE
   \<and> getModifierPriority (Some (js ''dark:'')) = DARK
   \<and> compareModifiers lc (Some (js ''md:'')) (Some (js ''dark:'')) = -2"
  by code_simp

section \<open>Facts about the sort order\<close>

lemma splitAt_not_Nil: "splitAt sep acc s \<noteq> []"
  by (induction s arbitrary: acc) simp_all

lemma indexOf_absent: "indexOf xs x = -1 \<longleftrightarrow> x \<notin> set xs"
proof (induction xs)
  case Nil
  show ?case by simp
next
  case (Cons y ys)
  have "0 \<le> indexOf ys x \<or> indexOf ys x = -1"
    by (induction ys) (auto simp: Let_def)
  with Cons show ?case by (auto simp: Let_def)
qed

lemma indexOf_bounds: "x \<in> set xs \<Longrightarrow> 0 \<le> indexOf xs x \<and> indexOf xs x < int (length xs)"
  by (induction xs) (auto simp: Let_def indexOf_absent)

lemma length_KNOWN_VARIANT_ORDER: "length KNOWN_VARIANT_ORDER = 45"
  by (simp add: KNOWN_VARIANT_ORDER_def PSEUDO_CLASS_VARIANTS_def GROUP_PEER_VARIANTS_def
      HAS_VARIANTS_def SUPPORTS_VARIANTS_def RESPONSIVE_BREAKPOINTS_def)

lemma empty_known: "[] \<in> set KNOWN_VARIANT_ORDER"
  by (simp add: KNOWN_VARIANT_ORDER_def)

lemma slice_snoc: "slice (t @ [c]) 0 (-1) = t"
  by (simp add: slice_butlast)

lemma sortOrder_known:
  assumes "t \<in> set KNOWN_VARIANT_ORDER"
  shows "0 \<le> getModifierSortOrder (Some (t @ [colon]))"
    and "getModifierSortOrder (Some (t @ [colon])) \<le> 44"
    and "t \<noteq> [] \<Longrightarrow> getModifierSortOrder (Some (t @ [colon])) = indexOf KNOWN_VARIANT_ORDER t"
proof -
  from indexOf_bounds [OF assms] length_KNOWN_VARIANT_ORDER
  have b: "0 \<le> indexOf KNOWN_VARIANT_ORDER t" "indexOf KNOWN_VARIANT_ORDER t \<le> 44"
    by auto
  then have ne: "indexOf KNOWN_VARIANT_ORDER t \<noteq> -1" by simp
  have o: "getModifierSortOrder (Some (t @ [colon]))
      = (if t = [] then 0 else indexOf KNOWN_VARIANT_ORDER t)"
    using ne by (simp add: getModifierSortOrder_def slice_snoc Let_def)
  show "0 \<le> getModifierSortOrder (Some (t @ [colon]))" using o b by simp
  show "getModifierSortOrder (Some (t @ [colon])) \<le> 44" using o b by simp
  show "t \<noteq> [] \<Longrightarrow> getModifierSortOrder (Some (t @ [colon])) = indexOf KNOWN_VARIANT_ORDER t"
    using o by simp
qed

lemma sortOrder_unknown:
  assumes "t \<notin> set KNOWN_VARIANT_ORDER"
  shows "getModifierSortOrder (Some (t @ [colon]))
     = (if hd (splitAt colon [] (t @ [colon])) \<in> set KNOWN_VARIANT_ORDER
        then 1000 + indexOf KNOWN_VARIANT_ORDER (hd (splitAt colon [] (t @ [colon])))
        else 10000 + uint (hd t))"
proof -
  from assms empty_known have ne: "t \<noteq> []" by auto
  from assms have k: "indexOf KNOWN_VARIANT_ORDER t = -1" by (simp add: indexOf_absent)
  show ?thesis
    using ne k
    by (simp add: getModifierSortOrder_def slice_snoc Let_def indexOf_absent)
qed

section \<open>Unknown modifiers rank after the known ones\<close>

text \<open>
  C9. A modifier is a text followed by its colon. For every modifier \<open>m:\<close> whose text
  \<open>m\<close> is in \<open>KNOWN_VARIANT_ORDER\<close> and every modifier \<open>u:\<close> whose text \<open>u\<close> is
  not, the sort order of \<open>m:\<close> is below that of \<open>u:\<close>; and the sort order of \<open>u:\<close>
  is 1000 plus the index of its first colon-separated part when that part is known, and
  10000 plus the code of its first code unit otherwise.
\<close>

theorem unknown_modifiers_rank_last:
  assumes "m \<in> set KNOWN_VARIANT_ORDER" and "u \<notin> set KNOWN_VARIANT_ORDER"
  shows "getModifierSortOrder (Some (m @ [colon])) < getModifierSortOrder (Some (u @ [colon]))
    \<and> getModifierSortOrder (Some (u @ [colon]))
       = (if hd (splitAt colon [] (u @ [colon])) \<in> set KNOWN_VARIANT_ORDER
          then 1000 + indexOf KNOWN_VARIANT_ORDER (hd (splitAt colon [] (u @ [colon])))
          else 10000 + uint (hd u))"
proof -
  let ?first = "hd (splitAt colon [] (u @ [colon]))"
  have u: "getModifierSortOrder (Some (u @ [colon]))
     = (if ?first \<in> set KNOWN_VARIANT_ORDER
        then 1000 + indexOf KNOWN_VARIANT_ORDER ?first
        else 10000 + uint (hd u))"
    by (rule sortOrder_unknown [OF assms(2)])
  have "1000 \<le> getModifierSortOrder (Some (u @ [colon]))"
  proof (cases "?first \<in> set KNOWN_VARIANT_ORDER")
    case True
    with u indexOf_bounds [OF True] show ?thesis by simp
  next
    case False
    have "0 \<le> uint (hd u)" by simp
    with u False show ?thesis by simp
  qed
  with sortOrder_known(2) [OF assms(1)] u show ?thesis by simp
qed

theorem unknown_modifiers_rank_last_witness:
  "js ''hover'' \<in> set KNOWN_VARIANT_ORDER
   \<and> js ''md:hover'' \<notin> set KNOWN_VARIANT_ORDER
   \<and> js ''zoom'' \<notin> set KNOWN_VARIANT_ORDER
   \<and> getModifierSortOrder (Some (js ''hover:'')) < getModifierSortOrder (Some (js ''md:hover:''))
   \<and> getModifierSortOrder (Some (js ''hover:'')) < getModifierSortOrder (Some (js ''zoom:''))
   \<and> getModifierSortOrder (Some (js ''md:hover:'')) = 1030
   \<and> getModifierSortOrder (Some (js ''zoom:'')) = 10122"
proof -
  have k: "js ''hover'' \<in> set KNOWN_VARIANT_ORDER"
    "js ''md:hover'' \<notin> set KNOWN_VARIANT_ORDER"
    "js ''zoom'' \<notin> set KNOWN_VARIANT_ORDER"
    by code_simp+
  have e: "js ''hover'' @ [colon] = js ''hover:''" "js ''md:hover'' @ [colon] = js ''md:hover:''"
    "js ''zoom'' @ [colon] = js ''zoom:''"
    by (simp_all add: js_def colon_def)
  have v: "(if hd (splitAt colon [] (js ''md:hover:'')) \<in> set KNOWN_VARIANT_ORDER
          then 1000 + indexOf KNOWN_VARIANT_ORDER (hd (splitAt colon [] (js ''md:hover:'')))
          else 10000 + uint (hd (js ''md:hover''))) = 1030"
    "(if hd (splitAt colon [] (js ''zoom:'')) \<in> set KNOWN_VARIANT_ORDER
          then 1000 + indexOf KNOWN_VARIANT_ORDER (hd (splitAt colon [] (js ''zoom:'')))
          else 10000 + uint (hd (js ''zoom''))) = 10122"
    by code_simp+
  from unknown_modifiers_rank_last [OF k(1) k(2)] unknown_modifiers_rank_last [OF k(1) k(3)]
  show ?thesis using k v unfolding e by simp
qed

section \<open>Facts about sorting and the comparison\<close>

lemma mset_insertBy: "mset (insertBy cmp x ys) = add_mset x (mset ys)"
  by (induction ys) auto

lemma mset_jsSort: "mset (jsSort cmp xs) = mset xs"
  by (induction xs) (auto simp: jsSort_def mset_insertBy)

lemma set_insertBy: "set (insertBy cmp x ys) = insert x (set ys)"
  by (induction ys) auto

lemma consistent_total: "consistentComparator cmp \<Longrightarrow> cmp a b \<le> 0 \<or> cmp b a \<le> 0"
  unfolding consistentComparator_def by (metis not_le order_less_imp_le)

lemma consistent_trans:
  "consistentComparator cmp \<Longrightarrow> cmp a b \<le> 0 \<Longrightarrow> cmp b c \<le> 0 \<Longrightarrow> cmp a c \<le> 0"
  unfolding consistentComparator_def by blast

lemma sorted_insertBy:
  assumes c: "consistentComparator cmp"
  shows "sorted_wrt (\<lambda>a b. cmp a b \<le> 0) ys \<Longrightarrow> sorted_wrt (\<lambda>a b. cmp a b \<le> 0) (insertBy cmp x ys)"
proof (induction ys)
  case Nil
  show ?case by simp
next
  case (Cons y ys)
  show ?case
  proof (cases "cmp x y \<le> 0")
    case True
    with Cons.prems consistent_trans [OF c] show ?thesis
      by auto
  next
    case False
    then have "cmp y x \<le> 0" using consistent_total [OF c, of x y] by simp
    with False Cons show ?thesis
      by (auto simp: set_insertBy)
  qed
qed

lemma sorted_jsSort:
  "consistentComparator cmp \<Longrightarrow> sorted_wrt (\<lambda>a b. cmp a b \<le> 0) (jsSort cmp xs)"
  by (induction xs) (auto simp: jsSort_def sorted_insertBy)

lemma insertBy_sorted_front:
  "sorted_wrt (\<lambda>a b. cmp a b \<le> 0) (x # ys) \<Longrightarrow> insertBy cmp x ys = x # ys"
  by (cases ys) auto

lemma jsSort_sorted:
  "sorted_wrt (\<lambda>a b. cmp a b \<le> 0) xs \<Longrightarrow> jsSort cmp xs = xs"
proof (induction xs)
  case Nil
  show ?case by (simp add: jsSort_def)
next
  case (Cons x xs)
  then have "jsSort cmp xs = xs" by simp
  then have "jsSort cmp (x # xs) = insertBy cmp x xs" by (simp add: jsSort_def)
  with Cons.prems show ?case by (simp only: insertBy_sorted_front)
qed


lemma priorityValue_inj: "priorityValue p = priorityValue q \<longleftrightarrow> p = q"
  by (cases p; cases q) simp_all

lemma priority_Some_not_BASE: "getModifierPriority (Some m) \<noteq> BASE"
  by (simp add: getModifierPriority_def)


lemma compareModifiers_cases:
  "compareModifiers lc a b =
     (if getModifierPriority a \<noteq> getModifierPriority b
      then priorityValue (getModifierPriority a) - priorityValue (getModifierPriority b)
      else if getModifierSortOrder a \<noteq> getModifierSortOrder b
      then getModifierSortOrder a - getModifierSortOrder b
      else lc (orElse a []) (orElse b []))"
  by (simp add: compareModifiers_def Let_def)

lemma compareModifiers_neg_iff:
  "compareModifiers lc a b < 0 \<longleftrightarrow>
     priorityValue (getModifierPriority a) < priorityValue (getModifierPriority b)
     \<or> (getModifierPriority a = getModifierPriority b
         \<and> (getModifierSortOrder a < getModifierSortOrder b
            \<or> (getModifierSortOrder a = getModifierSortOrder b
                \<and> lc (orElse a []) (orElse b []) < 0)))"
  using priorityValue_inj [of "getModifierPriority a" "getModifierPriority b"]
  by (auto simp: compareModifiers_cases)

lemma compareModifiers_pos_iff:
  "0 < compareModifiers lc a b \<longleftrightarrow>
     priorityValue (getModifierPriority b) < priorityValue (getModifierPriority a)
     \<or> (getModifierPriority a = getModifierPriority b
         \<and> (getModifierSortOrder b < getModifierSortOrder a
            \<or> (getModifierSortOrder a = getModifierSortOrder b
                \<and> 0 < lc (orElse a []) (orElse b []))))"
  using priorityValue_inj [of "getModifierPriority a" "getModifierPriority b"]
  by (auto simp: compareModifiers_cases)

lemma compareModifiers_le_iff:
  "compareModifiers lc a b \<le> 0 \<longleftrightarrow>
     priorityValue (getModifierPriority a) < priorityValue (getModifierPriority b)
     \<or> (getModifierPriority a = getModifierPriority b
         \<and> (getModifierSortOrder a < getModifierSortOrder b
            \<or> (getModifierSortOrder a = getModifierSortOrder b
                \<and> lc (orElse a []) (orElse b []) \<le> 0)))"
  using priorityValue_inj [of "getModifierPriority a" "getModifierPriority b"]
  by (auto simp: compareModifiers_cases)

lemma compareModifiers_consistent:
  assumes "consistentComparator lc"
  shows "consistentComparator (compareModifiers lc)"
proof -
  have sym: "\<And>x y. lc x y < 0 \<longleftrightarrow> 0 < lc y x"
    and tr: "\<And>x y z. lc x y \<le> 0 \<Longrightarrow> lc y z \<le> 0 \<Longrightarrow> lc x z \<le> 0"
    using assms unfolding consistentComparator_def by blast+
  show ?thesis
    unfolding consistentComparator_def
  proof (intro conjI allI impI)
    fix a b
    show "compareModifiers lc a b < 0 \<longleftrightarrow> 0 < compareModifiers lc b a"
      unfolding compareModifiers_neg_iff compareModifiers_pos_iff
      using sym [of "orElse a []" "orElse b []"] by auto
  next
    fix a b c
    assume "compareModifiers lc a b \<le> 0 \<and> compareModifiers lc b c \<le> 0"
    then show "compareModifiers lc a c \<le> 0"
      unfolding compareModifiers_le_iff
      using tr [of "orElse a []" "orElse b []" "orElse c []"] by auto
  qed
qed




lemma groupComparator_consistent:
  assumes "consistentComparator lc"
  shows "consistentComparator
           (\<lambda>a b. compareModifiers lc (ModifierGroup.modifier a) (ModifierGroup.modifier b))"
  using compareModifiers_consistent [OF assms]
  unfolding consistentComparator_def by blast

lemma strictComparator_codeUnitCompare: "strictComparator codeUnitCompare"
  unfolding strictComparator_def consistentComparator_def codeUnitCompare_def
  by (auto split: if_splits)








section \<open>The comparison of modifiers is a total preorder\<close>




section \<open>Facts about the grouper\<close>

lemma map_update_absent:
  "k \<notin> fst ` set g \<Longrightarrow> map (\<lambda>(k', v'). if k' = k then (k', v) else (k', v')) g = g"
  by (induction g) auto

lemma pushInto_absent:
  assumes "k \<notin> fst ` set g"
  shows "pushInto g k x = g @ [(k, [x])]"
proof -
  from assms have n: "map_of g k = None" by (simp add: map_of_eq_None_iff)
  then have g1: "(if \<not> mapHas g k then mapSet g k [] else g) = g @ [(k, [])]"
    by (simp add: mapHas_def mapSet_def)
  have get: "mapGet (g @ [(k, [])]) k = Some []"
    using n by (simp add: mapGet_def map_add_def)
  have has: "mapHas (g @ [(k, [])]) k"
    using get by (simp add: mapHas_def mapGet_def)
  have "mapSet (g @ [(k, [])]) k [x] = g @ [(k, [x])]"
    using has map_update_absent [OF assms] by (simp add: mapSet_def)
  with g1 get show ?thesis
    by (simp add: pushInto_def Let_def)
qed

lemma pushInto_last:
  assumes "k \<notin> fst ` set g"
  shows "pushInto (g @ [(k, xs)]) k x = g @ [(k, xs @ [x])]"
proof -
  from assms have n: "map_of g k = None" by (simp add: map_of_eq_None_iff)
  then have "map_of (g @ [(k, xs)]) k = Some xs" by (simp add: map_add_def)
  then show ?thesis
    using map_update_absent [OF assms]
    by (simp add: pushInto_def mapHas_def mapSet_def mapGet_def Let_def)
qed

lemma pushInto_present:
  assumes "map_of g k = Some xs"
  shows "pushInto g k x = map (\<lambda>(k', v'). if k' = k then (k', xs @ [x]) else (k', v')) g"
  using assms by (simp add: pushInto_def mapHas_def mapSet_def mapGet_def Let_def)

lemma wellGrouped_pushInto:
  assumes "wellGrouped g"
  shows "wellGrouped (pushInto g (keyOf c) c)"
proof (cases "map_of g (keyOf c)")
  case None
  then have a: "keyOf c \<notin> fst ` set g" by (simp add: map_of_eq_None_iff)
  with assms show ?thesis
    by (auto simp: pushInto_absent wellGrouped_def)
next
  case (Some xs)
  let ?f = "\<lambda>(k', v'). if k' = keyOf c then (k', xs @ [c]) else (k', v')"
  have keys: "map fst (map ?f g) = map fst g"
    by (induction g) auto
  have mem: "(keyOf c, xs) \<in> set g" using Some by (rule map_of_SomeD)
  have "\<forall>(k, cs) \<in> set (map ?f g). cs \<noteq> [] \<and> (\<forall>d \<in> set cs. keyOf d = k)"
  proof -
    have step: "\<And>k cs. (k, cs) \<in> set (map ?f g) \<Longrightarrow> cs \<noteq> [] \<and> (\<forall>d \<in> set cs. keyOf d = k)"
    proof -
      fix k cs
      assume "(k, cs) \<in> set (map ?f g)"
      then obtain k0 v0 where e: "(k0, v0) \<in> set g" "(k, cs) = ?f (k0, v0)"
        by auto
      show "cs \<noteq> [] \<and> (\<forall>d \<in> set cs. keyOf d = k)"
      proof (cases "k0 = keyOf c")
        case True
        from assms mem have "\<forall>d \<in> set xs. keyOf d = keyOf c"
          by (auto simp: wellGrouped_def)
        with True e show ?thesis by auto
      next
        case False
        with e assms show ?thesis by (auto simp: wellGrouped_def)
      qed
    qed
    show ?thesis
    proof (rule ballI)
      fix p
      assume p: "p \<in> set (map ?f g)"
      obtain k cs where pk: "p = (k, cs)" by (cases p)
      with p have "(k, cs) \<in> set (map ?f g)" by simp
      from step [OF this] pk
      show "case p of (k, cs) \<Rightarrow> cs \<noteq> [] \<and> (\<forall>d \<in> set cs. keyOf d = k)"
        by simp
    qed
  qed
  moreover have "distinct (map fst (map ?f g))"
    using assms by (simp only: keys wellGrouped_def)
  ultimately have "wellGrouped (map ?f g)"
    unfolding wellGrouped_def by (rule conjI [rotated])
  then show ?thesis
    by (simp only: pushInto_present [OF Some])
qed

lemma wellGrouped_foldl:
  "wellGrouped g \<Longrightarrow> wellGrouped (foldl (\<lambda>groups c. pushInto groups (keyOf c) c) g cls)"
  by (induction cls arbitrary: g) (auto simp: wellGrouped_pushInto)

lemma groupClassesByModifier_foldl:
  "groupClassesByModifier cls = foldl (\<lambda>groups c. pushInto groups (keyOf c) c) [] cls"
  by (simp add: groupClassesByModifier_def keyOf_def)

lemma wellGrouped_groupClassesByModifier: "wellGrouped (groupClassesByModifier cls)"
  using wellGrouped_foldl [of "[]" cls]
  by (simp add: groupClassesByModifier_foldl wellGrouped_def)

lemma foldl_pushInto_same:
  "k \<notin> fst ` set g \<Longrightarrow> \<forall>c \<in> set ys. keyOf c = k \<Longrightarrow>
     foldl (\<lambda>groups c. pushInto groups (keyOf c) c) (g @ [(k, xs)]) ys = g @ [(k, xs @ ys)]"
proof (induction ys arbitrary: xs)
  case Nil
  show ?case by simp
next
  case (Cons y ys)
  from Cons.prems have "keyOf y = k" by simp
  then have "pushInto (g @ [(k, xs)]) (keyOf y) y = g @ [(k, xs @ [y])]"
    using pushInto_last [OF Cons.prems(1)] by simp
  with Cons.IH [of "xs @ [y]"] Cons.prems show ?case by simp
qed

lemma foldl_pushInto_block:
  assumes "k \<notin> fst ` set g" "ys \<noteq> []" "\<forall>c \<in> set ys. keyOf c = k"
  shows "foldl (\<lambda>groups c. pushInto groups (keyOf c) c) g ys = g @ [(k, ys)]"
proof -
  from assms(2) obtain y ys' where ys: "ys = y # ys'" by (cases ys) auto
  with assms(3) have "keyOf y = k" by simp
  then have "pushInto g (keyOf y) y = g @ [(k, [y])]"
    using pushInto_absent [OF assms(1)] by simp
  with foldl_pushInto_same [OF assms(1), of ys' "[y]"] assms(3) ys
  show ?thesis by simp
qed

lemma foldl_pushInto_blocks:
  "wellGrouped (g @ blocks) \<Longrightarrow>
     foldl (\<lambda>groups c. pushInto groups (keyOf c) c) g (concat (map snd blocks)) = g @ blocks"
proof (induction blocks arbitrary: g)
  case Nil
  show ?case by simp
next
  case (Cons b blocks)
  obtain k cs where b: "b = (k, cs)" by (cases b)
  from Cons.prems b have k: "k \<notin> fst ` set g" and cs: "cs \<noteq> []" "\<forall>c \<in> set cs. keyOf c = k"
    by (auto simp: wellGrouped_def)
  have "foldl (\<lambda>groups c. pushInto groups (keyOf c) c) g cs = g @ [(k, cs)]"
    by (rule foldl_pushInto_block [OF k cs])
  moreover have "wellGrouped ((g @ [(k, cs)]) @ blocks)"
    using Cons.prems b by simp
  ultimately show ?case
    using Cons.IH [of "g @ [(k, cs)]"] b by simp
qed

lemma groupClassesByModifier_blocks:
  "wellGrouped blocks \<Longrightarrow> groupClassesByModifier (concat (map snd blocks)) = blocks"
  using foldl_pushInto_blocks [of "[]" blocks]
  by (simp add: groupClassesByModifier_foldl)

lemma set_jsSort: "set (jsSort cmp xs) = set xs"
  using mset_jsSort [of cmp xs] by (metis mset_eq_setD)

lemma jsSort_Nil_iff: "jsSort cmp xs = [] \<longleftrightarrow> xs = []"
  using mset_jsSort [of cmp xs] by (metis mset_zero_iff)

lemma jsSort_idem:
  "consistentComparator cmp \<Longrightarrow> jsSort cmp (jsSort cmp xs) = jsSort cmp xs"
  by (rule jsSort_sorted) (rule sorted_jsSort)

lemma sortClassesByModifierGroups_unfold:
  "sortClassesByModifierGroups lc cls =
     jsSort (\<lambda>a b. compareModifiers lc (ModifierGroup.modifier a) (ModifierGroup.modifier b))
       (map (\<lambda>(m, cs). \<lparr>modifier = m, classes = jsSort lc cs\<rparr>) (groupClassesByModifier cls))"
  by (simp add: sortClassesByModifierGroups_def sortModifierGroups_def sortClassesInGroup_def
      Let_def)

lemma sorted_groups_wellGrouped:
  assumes G: "G = sortClassesByModifierGroups lc cls"
  shows "wellGrouped (map (\<lambda>g. (ModifierGroup.modifier g, classes g)) G)"
    and "\<forall>g \<in> set G. \<exists>cs. classes g = jsSort lc cs"
proof -
  let ?cmp = "\<lambda>a b. compareModifiers lc (ModifierGroup.modifier a) (ModifierGroup.modifier b)"
  let ?mk = "\<lambda>(m, cs). \<lparr>modifier = m, classes = jsSort lc cs\<rparr>"
  let ?gm = "groupClassesByModifier cls"
  have G': "G = jsSort ?cmp (map ?mk ?gm)"
    using G by (simp only: sortClassesByModifierGroups_unfold)
  have wg: "wellGrouped ?gm" by (rule wellGrouped_groupClassesByModifier)
  have mset: "mset G = mset (map ?mk ?gm)" by (simp add: G' mset_jsSort)
  have setG: "set G = set (map ?mk ?gm)" by (simp add: G' set_jsSort)
  have mods: "map ModifierGroup.modifier (map ?mk ?gm) = map fst ?gm"
    by (induction ?gm) auto
  have "mset (map ModifierGroup.modifier G) = image_mset ModifierGroup.modifier (mset G)"
    by (rule mset_map)
  also have "\<dots> = image_mset ModifierGroup.modifier (mset (map ?mk ?gm))"
    by (simp only: mset)
  also have "\<dots> = mset (map ModifierGroup.modifier (map ?mk ?gm))"
    by (rule mset_map [symmetric])
  also have "\<dots> = mset (map fst ?gm)"
    by (simp only: mods)
  finally have "mset (map ModifierGroup.modifier G) = mset (map fst ?gm)" .
  then have "distinct (map ModifierGroup.modifier G) = distinct (map fst ?gm)"
    by (rule mset_eq_imp_distinct_iff)
  with wg have d: "distinct (map ModifierGroup.modifier G)"
    by (simp add: wellGrouped_def)
  have each: "\<And>g. g \<in> set G \<Longrightarrow>
      \<exists>k cs. (k, cs) \<in> set ?gm \<and> ModifierGroup.modifier g = k \<and> classes g = jsSort lc cs"
  proof -
    fix g
    assume "g \<in> set G"
    with setG obtain p where p: "p \<in> set ?gm" "g = ?mk p" by auto
    obtain k cs where "p = (k, cs)" by (cases p)
    with p show "\<exists>k cs. (k, cs) \<in> set ?gm \<and> ModifierGroup.modifier g = k
        \<and> classes g = jsSort lc cs"
      by auto
  qed
  show "\<forall>g \<in> set G. \<exists>cs. classes g = jsSort lc cs"
    using each by blast
  have body: "\<forall>(k, cs) \<in> set (map (\<lambda>g. (ModifierGroup.modifier g, classes g)) G).
      cs \<noteq> [] \<and> (\<forall>c \<in> set cs. keyOf c = k)"
  proof (rule ballI)
    fix p
    assume "p \<in> set (map (\<lambda>g. (ModifierGroup.modifier g, classes g)) G)"
    then obtain g where g: "g \<in> set G" "p = (ModifierGroup.modifier g, classes g)"
      by auto
    from each [OF g(1)] obtain k cs where kc:
      "(k, cs) \<in> set ?gm" "ModifierGroup.modifier g = k" "classes g = jsSort lc cs"
      by blast
    from wg kc(1) have "cs \<noteq> []" "\<forall>c \<in> set cs. keyOf c = k"
      by (auto simp: wellGrouped_def)
    with kc g(2) show "case p of (k, cs) \<Rightarrow> cs \<noteq> [] \<and> (\<forall>c \<in> set cs. keyOf c = k)"
      by (simp add: jsSort_Nil_iff set_jsSort)
  qed
  have "map fst (map (\<lambda>g. (ModifierGroup.modifier g, classes g)) G)
      = map ModifierGroup.modifier G"
    by simp
  with d have "distinct (map fst (map (\<lambda>g. (ModifierGroup.modifier g, classes g)) G))"
    by (simp only:)
  from this body show "wellGrouped (map (\<lambda>g. (ModifierGroup.modifier g, classes g)) G)"
    unfolding wellGrouped_def by (rule conjI)
qed

section \<open>Canonicalization is idempotent\<close>

text \<open>
  C6. For every consistent \<open>localeCompare\<close> and every list of class strings: flattening
  the groups that \<open>sortClassesByModifierGroups\<close> produces into one list of classes and
  running \<open>sortClassesByModifierGroups\<close> on that list yields the same sequence of groups,
  with the same classes in the same order in each group.
\<close>

theorem sortClassesByModifierGroups_idempotent:
  assumes "consistentComparator lc"
  shows "sortClassesByModifierGroups lc
           (concat (map classes (sortClassesByModifierGroups lc cls)))
         = sortClassesByModifierGroups lc cls"
proof -
  let ?cmp = "\<lambda>a b. compareModifiers lc (ModifierGroup.modifier a) (ModifierGroup.modifier b)"
  let ?mk = "\<lambda>(m, cs). \<lparr>modifier = m, classes = jsSort lc cs\<rparr>"
  define G where "G = sortClassesByModifierGroups lc cls"
  let ?B = "map (\<lambda>g. (ModifierGroup.modifier g, classes g)) G"
  have cg: "consistentComparator ?cmp" by (rule groupComparator_consistent [OF assms])
  have wg: "wellGrouped ?B" by (rule sorted_groups_wellGrouped(1) [OF G_def])
  have "concat (map snd ?B) = concat (map classes G)"
    by (simp add: comp_def)
  with groupClassesByModifier_blocks [OF wg]
  have regroup: "groupClassesByModifier (concat (map classes G)) = ?B" by simp
  have "map ?mk ?B = map (\<lambda>g. g) G"
    unfolding map_map
  proof (rule map_cong [OF refl])
    fix g
    assume "g \<in> set G"
    with sorted_groups_wellGrouped(2) [OF G_def] obtain cs where "classes g = jsSort lc cs"
      by blast
    then have "jsSort lc (classes g) = classes g"
      by (simp add: jsSort_idem [OF assms])
    then show "(?mk \<circ> (\<lambda>g. (ModifierGroup.modifier g, classes g))) g = g"
      by simp
  qed
  then have again: "map ?mk ?B = G" by simp
  define X where "X = map ?mk (groupClassesByModifier cls)"
  have G2: "G = jsSort ?cmp X"
    by (simp only: G_def X_def sortClassesByModifierGroups_unfold)
  have "jsSort ?cmp G = G"
    unfolding G2 by (rule jsSort_idem [OF cg])
  with regroup again
  have "sortClassesByModifierGroups lc (concat (map classes G)) = G"
    by (simp only: sortClassesByModifierGroups_unfold)
  then show ?thesis by (simp only: G_def)
qed

theorem sortClassesByModifierGroups_idempotent_witness:
  "consistentComparator codeUnitCompare
   \<and> concat (map classes (sortClassesByModifierGroups codeUnitCompare
        (map js [''md:p-4'', ''hover:bg-blue'', ''bg-red'', ''hover:text-white'', ''focus:ring-2''])))
      = map js [''bg-red'', ''focus:ring-2'', ''hover:bg-blue'', ''hover:text-white'', ''md:p-4'']
   \<and> sortClassesByModifierGroups codeUnitCompare
        (map js [''bg-red'', ''focus:ring-2'', ''hover:bg-blue'', ''hover:text-white'', ''md:p-4''])
      = sortClassesByModifierGroups codeUnitCompare
          (map js [''md:p-4'', ''hover:bg-blue'', ''bg-red'', ''hover:text-white'', ''focus:ring-2''])"
proof -
  have c: "consistentComparator codeUnitCompare"
    using strictComparator_codeUnitCompare by (simp add: strictComparator_def)
  have f: "concat (map classes (sortClassesByModifierGroups codeUnitCompare
        (map js [''md:p-4'', ''hover:bg-blue'', ''bg-red'', ''hover:text-white'', ''focus:ring-2''])))
      = map js [''bg-red'', ''focus:ring-2'', ''hover:bg-blue'', ''hover:text-white'', ''md:p-4'']"
    by code_simp
  from sortClassesByModifierGroups_idempotent [OF c,
      of "map js [''md:p-4'', ''hover:bg-blue'', ''bg-red'', ''hover:text-white'', ''focus:ring-2'']"]
  show ?thesis using c unfolding f by simp
qed

section \<open>Facts about blank strings\<close>

lemma trim_blank: "list_all isSpace s \<Longrightarrow> trim s = []"
proof -
  assume "list_all isSpace s"
  then have d: "dropWhile isSpace s = []" by (simp add: list_all_iff)
  show ?thesis unfolding trim_def d by simp
qed

lemma parseClasses_blank: "list_all isSpace s \<Longrightarrow> parseClasses s = []"
  by (simp add: parseClasses_def trim_blank)

lemma allClasses_blank:
  assumes "\<forall>info \<in> set argumentInfo.
      isStringLiteral info \<longrightarrow>
        (case classString info of None \<Rightarrow> True | Some s \<Rightarrow> list_all isSpace s)"
  shows "allClasses argumentInfo = []"
proof -
  have "\<And>info. info \<in> set argumentInfo \<Longrightarrow>
      (case checkedString info of Some s \<Rightarrow> map full (parseClasses s) | None \<Rightarrow> []) = []"
  proof -
    fix info
    assume "info \<in> set argumentInfo"
    with assms have "isStringLiteral info \<longrightarrow>
        (case classString info of None \<Rightarrow> True | Some s \<Rightarrow> list_all isSpace s)"
      by blast
    then show "(case checkedString info of Some s \<Rightarrow> map full (parseClasses s) | None \<Rightarrow> []) = []"
      by (auto simp: checkedString_def parseClasses_blank split: option.splits)
  qed
  then show ?thesis by (simp add: allClasses_def)
qed

section \<open>No fix for blank arguments\<close>

text \<open>
  C8. For every argument list in which the string of every string-literal argument is empty
  or consists of white space only, canonicalization yields no group and
  \<open>generateFunctionCallFix\<close> returns null, whatever the other arguments and the call are;
  and on every such string \<open>processClassesIntoArguments\<close> returns null, and so do the
  two fixes that wrap a single class string.
\<close>

theorem no_fix_for_blank_arguments:
  "((\<forall>info \<in> set argumentInfo.
        isStringLiteral info \<longrightarrow>
          (case classString info of None \<Rightarrow> True | Some s \<Rightarrow> list_all isSpace s))
      \<longrightarrow> sortClassesByModifierGroups lc (allClasses argumentInfo) = []
          \<and> generateFunctionCallFix lc call argumentInfo preferredFunction = None)
   \<and> (list_all isSpace s \<longrightarrow>
        processClassesIntoArguments lc s = None
        \<and> generateJSXAttributeFix lc attr s preferredFunction = None
        \<and> generateVariantValueFix lc prop s preferredFunction = None)"
proof (intro conjI impI)
  assume "\<forall>info \<in> set argumentInfo.
        isStringLiteral info \<longrightarrow>
          (case classString info of None \<Rightarrow> True | Some s \<Rightarrow> list_all isSpace s)"
  then have e: "allClasses argumentInfo = []" by (rule allClasses_blank)
  then show "sortClassesByModifierGroups lc (allClasses argumentInfo) = []"
    by (simp add: sortClassesByModifierGroups_def groupClassesByModifier_def
        sortModifierGroups_def jsSort_def)
  from e show "generateFunctionCallFix lc call argumentInfo preferredFunction = None"
    by (simp add: generateFunctionCallFix_def)
next
  assume b: "list_all isSpace s"
  then show "processClassesIntoArguments lc s = None"
    by (simp add: processClassesIntoArguments_def trim_blank)
  from b have g: "groupClassString s = []"
    by (simp add: groupClassString_def createModifierGroups_def parseClasses_blank)
  then show "generateJSXAttributeFix lc attr s preferredFunction = None"
    by (simp add: generateJSXAttributeFix_def mixesBaseAndModifiers_def
        hasMultipleModifierGroups_def)
  from g show "generateVariantValueFix lc prop s preferredFunction = None"
    by (simp add: generateVariantValueFix_def mixesBaseAndModifiers_def
        hasMultipleModifierGroups_def)
qed

theorem no_fix_for_blank_arguments_witness:
  "map (\<lambda>info. (isStringLiteral info, classString info)) (extractArgumentInfo blankCall)
     = [(True, Some []), (True, Some (js ''   '')), (False, None)]
   \<and> list_all isSpace (js ''   '')
   \<and> generateFunctionCallFix codeUnitCompare blankCall (extractArgumentInfo blankCall) (js ''cn'')
       = None
   \<and> processClassesIntoArguments codeUnitCompare (js ''   '') = None
   \<and> generateJSXAttributeFix codeUnitCompare \<lparr>value_jsx = Some (Some (15, 20))\<rparr> (js ''   '')
        (js ''cn'') = None
   \<and> generateVariantValueFix codeUnitCompare
        \<lparr>valueKind = Literal, valueRange = Some (40, 45)\<rparr> (js ''   '') (js ''cn'') = None"
proof -
  have i: "map (\<lambda>info. (isStringLiteral info, classString info)) (extractArgumentInfo blankCall)
     = [(True, Some []), (True, Some (js ''   '')), (False, None)]"
    by (simp add: extractArgumentInfo_def extractArgument_def blankCall_def enumerate_eq_zip
        upt_rec)
  have b: "list_all isSpace (js ''   '')"
    by (simp add: js_def isSpace_def)
  have a: "\<forall>info \<in> set (extractArgumentInfo blankCall).
        isStringLiteral info \<longrightarrow>
          (case classString info of None \<Rightarrow> True | Some s \<Rightarrow> list_all isSpace s)"
    using b
    by (simp add: extractArgumentInfo_def extractArgument_def blankCall_def enumerate_eq_zip
        upt_rec)
  from no_fix_for_blank_arguments [of "extractArgumentInfo blankCall" codeUnitCompare blankCall
      "js ''cn''" "js ''   ''" "\<lparr>value_jsx = Some (Some (15, 20))\<rparr>"
      "\<lparr>valueKind = Literal, valueRange = Some (40, 45)\<rparr>"] a b i
  show ?thesis by blast
qed

section \<open>The check of a fix compares sets\<close>

lemma set_setAdd: "set (setAdd xs x) = insert x (set xs)"
  by (auto simp: setAdd_def)

lemma set_foldl_setAdd: "set (foldl (\<lambda>acc p. setAdd acc (f p)) acc ps) = set acc \<union> f ` set ps"
  by (induction ps arbitrary: acc) (auto simp: set_setAdd)

lemma set_classSet_acc:
  "set (foldl (\<lambda>acc s. foldl (\<lambda>acc p. setAdd acc (full p)) acc (parseClasses s)) acc ss)
     = set acc \<union> (\<Union>s \<in> set ss. full ` set (parseClasses s))"
  by (induction ss arbitrary: acc) (auto simp: set_foldl_setAdd)

lemma set_classSet: "set (classSet ss) = (\<Union>s \<in> set ss. full ` set (parseClasses s))"
  by (simp add: classSet_def set_classSet_acc)

lemma verify_repeated_class:
  "verifyFixNonDestructive [js ''a a b''] outputAB
   \<and> concat (map (\<lambda>s. map full (parseClasses s)) [js ''a a b'']) = [js ''a'', js ''a'', js ''b'']
   \<and> concat (map (\<lambda>s. map full (parseClasses s)) (quotedMatches outputAB))
       = [js ''a'', js ''b'']"
  by code_simp

text \<open>
  C10. For every list of input class strings and every output code,
  \<open>verifyFixNonDestructive\<close> is true exactly when the set of the class names parsed from
  the input strings equals the set of the class names parsed from the quoted strings of
  the output code. So it is true of the input \<open>"a a b"\<close> and the output
  \<open>cn("a", "b")\<close>, where the class \<open>a\<close> occurs twice in the input and once in the
  output.
\<close>

theorem verifyFixNonDestructive_compares_sets:
  "(verifyFixNonDestructive inputClasses outputCode \<longleftrightarrow>
      (\<Union>s \<in> set inputClasses. full ` set (parseClasses s))
      = (\<Union>s \<in> set (quotedMatches outputCode). full ` set (parseClasses s)))
   \<and> verifyFixNonDestructive [js ''a a b''] outputAB
   \<and> concat (map (\<lambda>s. map full (parseClasses s)) [js ''a a b'']) = [js ''a'', js ''a'', js ''b'']
   \<and> concat (map (\<lambda>s. map full (parseClasses s)) (quotedMatches outputAB))
       = [js ''a'', js ''b'']"
proof -
  let ?A = "set (classSet inputClasses)"
  let ?B = "set (classSet (quotedMatches outputCode))"
  have "verifyFixNonDestructive inputClasses outputCode \<longleftrightarrow> ?A \<subseteq> ?B \<and> ?B \<subseteq> ?A"
    by (auto simp: verifyFixNonDestructive_def Let_def list_all_iff)
  also have "\<dots> \<longleftrightarrow> ?A = ?B" by blast
  finally have "verifyFixNonDestructive inputClasses outputCode \<longleftrightarrow>
      (\<Union>s \<in> set inputClasses. full ` set (parseClasses s))
      = (\<Union>s \<in> set (quotedMatches outputCode). full ` set (parseClasses s))"
    by (simp only: set_classSet)
  with verify_repeated_class show ?thesis by blast
qed

section \<open>The new string arguments hold the classes of the call\<close>

text \<open>
  Before they are quoted, the new string arguments of \<open>generateFunctionCallFix\<close> hold
  exactly the classes of the checked string arguments of the call, each as often as the
  call has it, whatever \<open>localeCompare\<close> is.
\<close>

lemma splitSpaces_fragments:
  "\<not> list_ex isSpace acc \<Longrightarrow> f \<in> set (splitSpaces acc s) \<Longrightarrow> \<not> list_ex isSpace f"
proof (induction acc s arbitrary: f rule: splitSpaces.induct)
  case (1 acc)
  then show ?case by (simp add: list_ex_iff)
next
  case (2 acc c cs)
  show ?case
  proof (cases "isSpace c")
    case True
    with "2.prems" have "f = rev acc \<or> f \<in> set (splitSpaces [] (dropWhile isSpace cs))"
      by simp
    then show ?thesis
    proof
      assume "f = rev acc"
      with "2.prems"(1) show ?thesis by (simp add: list_ex_iff)
    next
      assume "f \<in> set (splitSpaces [] (dropWhile isSpace cs))"
      with "2.IH"(1) [OF True] show ?thesis by simp
    qed
  next
    case False
    with "2.prems" have "f \<in> set (splitSpaces (c # acc) cs)" by simp
    moreover have "\<not> list_ex isSpace (c # acc)" using False "2.prems"(1) by simp
    ultimately show ?thesis using "2.IH"(2) [OF False] by blast
  qed
qed

lemma parseClasses_tokens: "c \<in> set (map full (parseClasses s)) \<Longrightarrow> isToken c"
proof -
  assume a: "c \<in> set (map full (parseClasses s))"
  from a have "c \<in> set (filter (\<lambda>f. f \<noteq> []) (splitSpaces [] (trim s)))"
    by (auto simp: parseClasses_def Let_def parseClass_full split: if_splits)
  then have "c \<noteq> []" "c \<in> set (splitSpaces [] (trim s))" by auto
  with splitSpaces_fragments [of "[]" c "trim s"] show "isToken c"
    by (simp add: isToken_def)
qed

lemma allClasses_tokens: "c \<in> set (allClasses argumentInfo) \<Longrightarrow> isToken c"
  using parseClasses_tokens
  by (fastforce simp: allClasses_def split: option.splits)

lemma splitSpaces_token_prefix:
  "\<not> list_ex isSpace t \<Longrightarrow> splitSpaces acc (t @ rest) = splitSpaces (rev t @ acc) rest"
  by (induction t arbitrary: acc) simp_all

lemma join_Cons: "join sep (x # xs) = (if xs = [] then x else x @ sep @ join sep xs)"
  by (cases xs) simp_all

lemma join_tokens_hd:
  "isToken c \<Longrightarrow> join [space] (c # cs) \<noteq> [] \<and> \<not> isSpace (hd (join [space] (c # cs)))"
  by (cases c) (auto simp: join_Cons isToken_def)

lemma dropWhile_hd: "s \<noteq> [] \<Longrightarrow> \<not> P (hd s) \<Longrightarrow> dropWhile P s = s"
  by (cases s) simp_all

lemma isSpace_space: "isSpace space"
  by (simp add: isSpace_def space_def)

lemma splitSpaces_join:
  "isToken c \<Longrightarrow> \<forall>d \<in> set cs. isToken d \<Longrightarrow>
     splitSpaces acc (join [space] (c # cs)) = (rev acc @ c) # cs"
proof (induction cs arbitrary: c acc)
  case Nil
  then have "\<not> list_ex isSpace c" by (simp add: isToken_def)
  from splitSpaces_token_prefix [OF this, of acc "[]"] show ?case by simp
next
  case (Cons d ds)
  from Cons.prems have c: "\<not> list_ex isSpace c" by (simp add: isToken_def)
  from Cons.prems have d: "isToken d" "\<forall>e \<in> set ds. isToken e" by simp_all
  have "splitSpaces acc (join [space] (c # d # ds))
      = splitSpaces acc (c @ (space # join [space] (d # ds)))"
    by simp
  also have "\<dots> = splitSpaces (rev c @ acc) (space # join [space] (d # ds))"
    by (rule splitSpaces_token_prefix [OF c])
  also have "\<dots> = (rev acc @ c) # splitSpaces [] (dropWhile isSpace (join [space] (d # ds)))"
    by (simp add: isSpace_space)
  also have "dropWhile isSpace (join [space] (d # ds)) = join [space] (d # ds)"
    using join_tokens_hd [OF d(1), of ds] by (intro dropWhile_hd) simp_all
  also have "splitSpaces [] (join [space] (d # ds)) = d # ds"
    using Cons.IH [OF d, of "[]"] by simp
  finally show ?case .
qed

lemma join_tokens_last:
  "isToken c \<Longrightarrow> \<forall>d \<in> set cs. isToken d \<Longrightarrow>
     \<not> isSpace (last (join [space] (c # cs)))"
proof (induction cs arbitrary: c)
  case Nil
  then show ?case by (auto simp: isToken_def list_ex_iff)
next
  case (Cons d ds)
  from Cons.prems have d: "isToken d" "\<forall>e \<in> set ds. isToken e" by simp_all
  have "join [space] (d # ds) \<noteq> []" using join_tokens_hd [OF d(1)] by simp
  then have "last (join [space] (c # d # ds)) = last (join [space] (d # ds))"
    by simp
  with Cons.IH [OF d] show ?case by simp
qed

lemma trim_join_tokens:
  assumes "isToken c" "\<forall>d \<in> set cs. isToken d"
  shows "trim (join [space] (c # cs)) = join [space] (c # cs)"
proof -
  let ?s = "join [space] (c # cs)"
  from join_tokens_hd [OF assms(1), of cs] have ne: "?s \<noteq> []" and h: "\<not> isSpace (hd ?s)"
    by simp_all
  have l: "\<not> isSpace (last ?s)" by (rule join_tokens_last [OF assms])
  have "dropWhile isSpace ?s = ?s" by (rule dropWhile_hd [where P = isSpace, OF ne h])
  moreover have "dropWhile isSpace (rev ?s) = rev ?s"
    using ne l by (intro dropWhile_hd) (simp_all add: hd_rev)
  ultimately show ?thesis by (simp add: trim_def)
qed

lemma parseClasses_join_tokens:
  assumes "cs \<noteq> []" "\<forall>d \<in> set cs. isToken d"
  shows "map full (parseClasses (join [space] cs)) = cs"
proof -
  from assms obtain c ds where cs: "cs = c # ds" by (cases cs) auto
  with assms(2) have t: "isToken c" "\<forall>d \<in> set ds. isToken d" by simp_all
  have ne: "join [space] cs \<noteq> []" using join_tokens_hd [OF t(1), of ds] cs by simp
  have tr: "trim (join [space] cs) = join [space] cs"
    using trim_join_tokens [OF t] cs by simp
  have sp: "splitSpaces [] (join [space] cs) = cs"
    using splitSpaces_join [OF t, of "[]"] cs by simp
  have f: "filter (\<lambda>f. f \<noteq> []) cs = cs"
    using assms(2) by (simp add: isToken_def filter_id_conv)
  show ?thesis
    using ne by (simp add: parseClasses_def tr sp f Let_def comp_def parseClass_full)
qed

lemma mset_concat_map_cong:
  "mset L = mset L' \<Longrightarrow> mset (concat (map f L)) = mset (concat (map f L'))"
proof -
  assume a: "mset L = mset L'"
  have "mset (concat (map f xs)) = sum_mset (image_mset (\<lambda>x. mset (f x)) (mset xs))" for xs
    by (induction xs) simp_all
  with a show ?thesis by simp
qed

lemma mset_pushInto:
  assumes "distinct (map fst g)"
  shows "mset (concat (map snd (pushInto g k x))) = add_mset x (mset (concat (map snd g)))"
proof (cases "map_of g k")
  case None
  then have "k \<notin> fst ` set g" by (simp add: map_of_eq_None_iff)
  then show ?thesis by (simp add: pushInto_absent)
next
  case (Some xs)
  let ?f = "\<lambda>(k', v'). if k' = k then (k', xs @ [x]) else (k', v')"
  have "distinct (map fst h) \<Longrightarrow> map_of h k = Some xs \<Longrightarrow>
      mset (concat (map snd (map ?f h))) = add_mset x (mset (concat (map snd h)))" for h
  proof (induction h)
    case Nil
    then show ?case by simp
  next
    case (Cons p h)
    obtain k' v' where p: "p = (k', v')" by (cases p)
    show ?case
    proof (cases "k' = k")
      case True
      with Cons.prems p have "k \<notin> fst ` set h" "v' = xs" by auto
      with map_update_absent [of k h "xs @ [x]"] True p show ?thesis by simp
    next
      case False
      with Cons p show ?thesis by simp
    qed
  qed
  from this [OF assms Some] show ?thesis
    by (simp only: pushInto_present [OF Some])
qed

lemma mset_foldl_pushInto:
  "wellGrouped g \<Longrightarrow>
     mset (concat (map snd (foldl (\<lambda>groups c. pushInto groups (keyOf c) c) g cls)))
       = mset (concat (map snd g)) + mset cls"
proof (induction cls arbitrary: g)
  case Nil
  show ?case by simp
next
  case (Cons c cls)
  from Cons.prems have d: "distinct (map fst g)" by (simp add: wellGrouped_def)
  have w: "wellGrouped (pushInto g (keyOf c) c)"
    by (rule wellGrouped_pushInto [OF Cons.prems])
  from Cons.IH [OF w] mset_pushInto [OF d, of "keyOf c" c] show ?case by simp
qed

lemma mset_groupClassesByModifier:
  "mset (concat (map snd (groupClassesByModifier cls))) = mset cls"
  using mset_foldl_pushInto [of "[]" cls]
  by (simp add: groupClassesByModifier_foldl wellGrouped_def)

lemma mset_sortClassesByModifierGroups:
  "mset (concat (map classes (sortClassesByModifierGroups lc cls))) = mset cls"
proof -
  let ?cmp = "\<lambda>a b. compareModifiers lc (ModifierGroup.modifier a) (ModifierGroup.modifier b)"
  let ?mk = "\<lambda>(m, cs). \<lparr>modifier = m, classes = jsSort lc cs\<rparr>"
  let ?gm = "groupClassesByModifier cls"
  have "mset (concat (map classes (jsSort ?cmp (map ?mk ?gm))))
      = mset (concat (map classes (map ?mk ?gm)))"
    by (rule mset_concat_map_cong) (rule mset_jsSort)
  also have "\<dots> = mset (concat (map snd ?gm))"
  proof -
    have "mset (concat (map classes (map ?mk h))) = mset (concat (map snd h))" for h
      by (induction h) (auto simp: mset_jsSort)
    then show ?thesis .
  qed
  also have "\<dots> = mset cls" by (rule mset_groupClassesByModifier)
  finally show ?thesis by (simp only: sortClassesByModifierGroups_unfold)
qed

lemma newStringArguments_tokens:
  "mset (concat (map (\<lambda>s. map full (parseClasses s))
           (newStringArguments lc (sortClassesByModifierGroups lc (allClasses argumentInfo)))))
     = mset (allClasses argumentInfo)"
proof -
  define G where "G = sortClassesByModifierGroups lc (allClasses argumentInfo)"
  have ms: "mset (concat (map classes G)) = mset (allClasses argumentInfo)"
    unfolding G_def by (rule mset_sortClassesByModifierGroups)
  have tok: "\<And>g c. g \<in> set G \<Longrightarrow> c \<in> set (classes g) \<Longrightarrow> isToken c"
  proof -
    fix g c
    assume "g \<in> set G" "c \<in> set (classes g)"
    then have "c \<in> set (concat (map classes G))" by auto
    then have "c \<in># mset (concat (map classes G))" by simp
    then have "c \<in> set (allClasses argumentInfo)" by (simp only: ms) simp
    then show "isToken c" by (rule allClasses_tokens)
  qed
  have ne: "\<And>g. g \<in> set G \<Longrightarrow> classes g \<noteq> []"
  proof -
    fix g
    assume g: "g \<in> set G"
    from sorted_groups_wellGrouped(1) [OF G_def]
    have "\<forall>(k, cs) \<in> set (map (\<lambda>g. (ModifierGroup.modifier g, classes g)) G). cs \<noteq> []"
      by (auto simp: wellGrouped_def)
    with g show "classes g \<noteq> []" by auto
  qed
  have each: "\<And>g. g \<in> set G \<Longrightarrow>
      jsSort lc (classes g) \<noteq> [] \<and> (\<forall>c \<in> set (jsSort lc (classes g)). isToken c)"
    using ne tok by (simp add: jsSort_Nil_iff set_jsSort)
  have new: "newStringArguments lc G = map (\<lambda>g. join [space] (jsSort lc (classes g))) G"
    if "\<And>g. g \<in> set G \<Longrightarrow> classes g \<noteq> [] \<and> join [space] (jsSort lc (classes g)) \<noteq> []"
    using that
    by (induction G)
       (simp_all add: newStringArguments_def List.map_filter_simps sortClassesInGroup_def Let_def)
  have jn: "\<And>g. g \<in> set G \<Longrightarrow> join [space] (jsSort lc (classes g)) \<noteq> []"
  proof -
    fix g
    assume "g \<in> set G"
    from each [OF this] obtain c ds where "jsSort lc (classes g) = c # ds" "isToken c"
      by (cases "jsSort lc (classes g)") auto
    with join_tokens_hd [of c ds] show "join [space] (jsSort lc (classes g)) \<noteq> []"
      by simp
  qed
  have "newStringArguments lc G = map (\<lambda>g. join [space] (jsSort lc (classes g))) G"
    using new ne jn by blast
  then have "concat (map (\<lambda>s. map full (parseClasses s)) (newStringArguments lc G))
      = concat (map (\<lambda>g. map full (parseClasses (join [space] (jsSort lc (classes g))))) G)"
    by (simp add: comp_def)
  also have "\<dots> = concat (map (\<lambda>g. jsSort lc (classes g)) G)"
  proof -
    have "map (\<lambda>g. map full (parseClasses (join [space] (jsSort lc (classes g))))) G
        = map (\<lambda>g. jsSort lc (classes g)) G"
      using each by (intro map_cong [OF refl] parseClasses_join_tokens) blast+
    then show ?thesis by (rule arg_cong [of _ _ concat])
  qed
  finally have "mset (concat (map (\<lambda>s. map full (parseClasses s)) (newStringArguments lc G)))
      = mset (concat (map (\<lambda>g. jsSort lc (classes g)) G))"
    by simp
  also have "\<dots> = mset (concat (map classes G))"
    by (induction G) (simp_all add: mset_jsSort)
  finally show ?thesis using ms by (simp only: G_def)
qed

lemma generateFunctionCallFix_text:
  "generateFunctionCallFix lc call argumentInfo preferredFunction = Some fix \<Longrightarrow>
     text_fix fix
       = join (js '', '')
           (allArguments
              (newStringArguments lc (sortClassesByModifierGroups lc (allClasses argumentInfo)))
              argumentInfo)"
  by (auto simp: generateFunctionCallFix_def Let_def split: if_splits list.splits option.splits)

section \<open>A backslash in a class is not escaped\<close>

text \<open>
  C1 says that the string arguments of the replacement text hold the same multiset of
  class tokens as the string-literal arguments of the call. The call \<open>cn("x\\ty md:z")\<close>
  has the two classes \<open>x\ty\<close> (with a backslash) and \<open>md:z\<close>; the rule reports it, and
  the replacement text is \<open>"x\ty", "md:z"\<close>: the quotes of a class are escaped, the
  backslash is not. Read as JavaScript, the first literal of the replacement denotes
  \<open>x\<close>, a tab and \<open>y\<close>, so the replacement holds the three classes \<open>x\<close>, \<open>y\<close> and
  \<open>md:z\<close>, whereas the source text of the original argument reads back as the two
  classes of the call.
\<close>

theorem generateFunctionCallFix_backslash:
  "map_option messageId (handleStandardFunctionCall backslashCall) = Some mixedBaseAndModifiers
   \<and> generateFunctionCallFix lc backslashCall (extractArgumentInfo backslashCall) (js ''cn'')
       = Some \<lparr>range_fix = (3, 15),
               text_fix = [dquote] @ js ''x'' @ [backslash] @ js ''ty'' @ [dquote] @ js '', ''
                          @ [dquote] @ js ''md:z'' @ [dquote]\<rparr>
   \<and> allClasses (extractArgumentInfo backslashCall)
       = [js ''x'' @ [backslash] @ js ''ty'', js ''md:z'']
   \<and> tokensOfText (sourceText (hd (arguments backslashCall)))
       = Some [js ''x'' @ [backslash] @ js ''ty'', js ''md:z'']
   \<and> tokensOfText ([dquote] @ js ''x'' @ [backslash] @ js ''ty'' @ [dquote] @ js '', ''
                          @ [dquote] @ js ''md:z'' @ [dquote])
       = Some [js ''x'', js ''y'', js ''md:z'']"
  by code_simp

end
